theory Spec2Isabelle
  imports Main "HOL-Library.Word"
begin

unbundle bit_operations_syntax

section \<open>Python values\<close>

text \<open>
  A \<open>bytes\<close> object is a list of 8-bit words. A \<open>str\<close> is a list of Unicode code points
  (natural numbers), since \<open>strip\<close>, \<open>startswith\<close> and the JSON reader all work on code
  points. \<open>str\<close> turns an ASCII literal of the theory into such a list.
\<close>

type_synonym byte = "8 word"
type_synonym bytes = "byte list"
type_synonym pystr = "nat list"

definition str :: "string \<Rightarrow> pystr" where
  "str s = map of_char s"

text \<open>The exceptions the client raises itself or lets through from the socket.\<close>

datatype exn =
    ValueError pystr
  | ConnectionError pystr
  | OverflowError
  | UnicodeEncodeError
  | OSError

section \<open>The socket and the source of random bytes\<close>

text \<open>
  What the peer and the operating system do is a script held in the state: \<open>rx\<close> is what
  successive \<open>recv\<close> calls find (a chunk of data, or a fault such as a timeout or a reset;
  the empty list is a peer that has closed), \<open>tx_faults\<close> says which of the next
  \<open>sendall\<close> calls raise (\<open>True\<close>; past its end every call succeeds), \<open>entropy\<close> is
  the byte sequence \<open>os.urandom\<close> reads from. What the client does is logged: \<open>tx\<close>
  holds the argument of every \<open>sendall\<close> that returned, \<open>close_calls\<close> counts the
  \<open>sock.close()\<close> calls the client makes.
\<close>

datatype rx_event = RxData bytes | RxFault

record sock =
  rx :: "rx_event list"
  tx_faults :: "bool list"
  tx :: "bytes list"
  close_calls :: nat
  entropy :: "nat \<Rightarrow> byte"
  entropy_used :: nat

definition os_urandom :: "nat \<Rightarrow> sock \<Rightarrow> bytes \<times> sock" where
  "os_urandom n s =
     (map (entropy s) [entropy_used s ..< entropy_used s + n],
      s\<lparr>entropy_used := entropy_used s + n\<rparr>)"

text \<open>
  \<open>sock.recv(n)\<close>: at most \<open>n\<close> bytes of the next chunk, \<open>b""\<close> once the peer has
  closed, or an \<open>OSError\<close>. The model takes any \<open>n\<close>; \<open>socket.recv\<close> raises
  \<open>OverflowError\<close> for an \<open>n\<close> of \<open>2^63\<close> or more, which only a frame that declares
  such a length asks for.
\<close>

definition sock_recv :: "nat \<Rightarrow> sock \<Rightarrow> (exn + bytes) \<times> sock" where
  "sock_recv n s =
     (case rx s of
        [] \<Rightarrow> (Inr [], s)
      | RxFault # rest \<Rightarrow> (Inl OSError, s\<lparr>rx := rest\<rparr>)
      | RxData chunk # rest \<Rightarrow>
          if length chunk \<le> n then (Inr chunk, s\<lparr>rx := rest\<rparr>)
          else (Inr (take n chunk), s\<lparr>rx := RxData (drop n chunk) # rest\<rparr>))"

definition sock_sendall :: "bytes \<Rightarrow> sock \<Rightarrow> (exn + unit) \<times> sock" where
  "sock_sendall data s =
     (case tx_faults s of
        [] \<Rightarrow> (Inr (), s\<lparr>tx := tx s @ [data]\<rparr>)
      | fault # rest \<Rightarrow>
          if fault then (Inl OSError, s\<lparr>tx_faults := rest\<rparr>)
          else (Inr (), s\<lparr>tx_faults := rest, tx := tx s @ [data]\<rparr>))"

definition sock_close :: "sock \<Rightarrow> sock" where
  "sock_close s = s\<lparr>close_calls := Suc (close_calls s)\<rparr>"

section \<open>The frame codec\<close>

subsection \<open>Integers as big-endian bytes\<close>

text \<open>
  \<open>int.to_bytes(len, "big")\<close> raises \<open>OverflowError\<close> when the value needs more than
  \<open>len\<close> bytes; \<open>int.from_bytes(bs, "big")\<close> is total.
\<close>

fun big_endian :: "nat \<Rightarrow> nat \<Rightarrow> bytes" where
  "big_endian 0 n = []"
| "big_endian (Suc len) n = big_endian len (n div 256) @ [of_nat (n mod 256)]"

definition int_to_bytes :: "nat \<Rightarrow> nat \<Rightarrow> exn + bytes" where
  "int_to_bytes n len = (if n < 256 ^ len then Inr (big_endian len n) else Inl OverflowError)"

definition int_from_bytes :: "bytes \<Rightarrow> nat" where
  "int_from_bytes bs = foldl (\<lambda>acc b. 256 * acc + unat b) 0 bs"

subsection \<open>Encoding: \<open>_send_websocket_frame\<close>\<close>

text \<open>
  The masking expression \<open>bytes(b ^ mask_key[i % 4] for i, b in enumerate(payload))\<close>
  stands in the encoder and, letter for letter, in the decoder.
\<close>

definition xor_mask :: "bytes \<Rightarrow> bytes \<Rightarrow> bytes" where
  "xor_mask mask_key payload = map (\<lambda>(i, b). b XOR mask_key ! (i mod 4)) (enumerate 0 payload)"

text \<open>The header up to and including the length field (lines 132 to 143).\<close>

definition frame_header :: "nat \<Rightarrow> nat \<Rightarrow> bool \<Rightarrow> exn + bytes" where
  "frame_header opcode len use_mask =
     (let first_byte = 128 OR (opcode AND 15);
          mask_bit = (if use_mask then 128 else 0)
      in if len < 126 then Inr [of_nat first_byte, of_nat (mask_bit OR len)]
         else if len < 2 ^ 16 then
           (case int_to_bytes len 2 of
              Inl e \<Rightarrow> Inl e
            | Inr ext \<Rightarrow> Inr ([of_nat first_byte, of_nat (mask_bit OR 126)] @ ext))
         else
           (case int_to_bytes len 8 of
              Inl e \<Rightarrow> Inl e
            | Inr ext \<Rightarrow> Inr ([of_nat first_byte, of_nat (mask_bit OR 127)] @ ext)))"

text \<open>The bytes of one frame, for a given mask key.\<close>

definition websocket_frame :: "nat \<Rightarrow> bytes \<Rightarrow> bool \<Rightarrow> bytes \<Rightarrow> exn + bytes" where
  "websocket_frame opcode payload use_mask mask_key =
     (case frame_header opcode (length payload) use_mask of
        Inl e \<Rightarrow> Inl e
      | Inr header \<Rightarrow>
          Inr (if use_mask then header @ mask_key @ xor_mask mask_key payload
               else header @ payload))"

definition send_websocket_frame :: "nat \<Rightarrow> bytes \<Rightarrow> bool \<Rightarrow> sock \<Rightarrow> (exn + unit) \<times> sock" where
  "send_websocket_frame opcode payload use_mask s =
     (case frame_header opcode (length payload) use_mask of
        Inl e \<Rightarrow> (Inl e, s)
      | Inr header \<Rightarrow>
          if use_mask then
            (let (mask_key, s1) = os_urandom 4 s
             in sock_sendall (header @ mask_key @ xor_mask mask_key payload) s1)
          else sock_sendall (header @ payload) s)"

subsection \<open>Decoding: \<open>_recv_exact\<close> and \<open>_recv_websocket_messages\<close>\<close>

function recv_exact_loop :: "nat \<Rightarrow> bytes \<Rightarrow> sock \<Rightarrow> (exn + bytes) \<times> sock" where
  "recv_exact_loop nbytes data s =
     (if length data < nbytes then
        (case sock_recv (nbytes - length data) s of
           (Inl e, s') \<Rightarrow> (Inl e, s')
         | (Inr chunk, s') \<Rightarrow>
             if chunk = [] then
               (Inl (ConnectionError (str ''Socket connection closed unexpectedly'')), s')
             else recv_exact_loop nbytes (data @ chunk) s')
      else (Inr data, s))"
  by pat_completeness auto
termination
proof (relation "measure (\<lambda>(nbytes, data, s). nbytes - length data)")
  fix nbytes :: nat and data chunk :: bytes
  assume "length data < nbytes" and "chunk \<noteq> []"
  then have "nbytes - length (data @ chunk) < nbytes - length data"
    by (cases chunk) auto
  then show "((nbytes, data @ chunk, s'), (nbytes, data, s))
      \<in> measure (\<lambda>(nbytes, data, s). nbytes - length data)" for s s' :: sock
    by simp
qed simp

declare recv_exact_loop.simps [simp del]

definition recv_exact :: "nat \<Rightarrow> sock \<Rightarrow> (exn + bytes) \<times> sock" where
  "recv_exact nbytes s = recv_exact_loop nbytes [] s"

text \<open>
  The first lines of one turn of the receive loop (lines 164 to 173): the opcode, the mask
  flag and the payload length.
\<close>

definition recv_frame_header :: "sock \<Rightarrow> (exn + nat \<times> bool \<times> nat) \<times> sock" where
  "recv_frame_header s =
     (case recv_exact 2 s of
        (Inl e, s1) \<Rightarrow> (Inl e, s1)
      | (Inr header, s1) \<Rightarrow>
          (let first = unat (header ! 0);
               second = unat (header ! 1);
               opcode = first AND 15;
               masked = (second AND 128 \<noteq> 0);
               len = second AND 127
           in if len = 126 then
                (case recv_exact 2 s1 of
                   (Inl e, s2) \<Rightarrow> (Inl e, s2)
                 | (Inr ext, s2) \<Rightarrow> (Inr (opcode, masked, int_from_bytes ext), s2))
              else if len = 127 then
                (case recv_exact 8 s1 of
                   (Inl e, s2) \<Rightarrow> (Inl e, s2)
                 | (Inr ext, s2) \<Rightarrow> (Inr (opcode, masked, int_from_bytes ext), s2))
              else (Inr (opcode, masked, len), s1)))"

text \<open>One turn of the loop of \<open>_recv_websocket_messages\<close>, up to its \<open>yield\<close>.\<close>

definition recv_frame :: "sock \<Rightarrow> (exn + nat \<times> bytes) \<times> sock" where
  "recv_frame s =
     (case recv_frame_header s of
        (Inl e, s1) \<Rightarrow> (Inl e, s1)
      | (Inr (opcode, masked, len), s1) \<Rightarrow>
          (case (if masked then recv_exact 4 s1 else (Inr [], s1)) of
             (Inl e, s2) \<Rightarrow> (Inl e, s2)
           | (Inr mask_key, s2) \<Rightarrow>
               (case (if len \<noteq> 0 then recv_exact len s2 else (Inr [], s2)) of
                  (Inl e, s3) \<Rightarrow> (Inl e, s3)
                | (Inr payload, s3) \<Rightarrow>
                    (Inr (opcode,
                          if masked \<and> len \<noteq> 0 then xor_mask mask_key payload else payload),
                     s3))))"

section \<open>Strings\<close>

text \<open>
  The code points \<open>str.strip()\<close> removes: those for which \<open>str.isspace\<close> holds.
\<close>

definition py_isspace :: "nat \<Rightarrow> bool" where
  "py_isspace c \<longleftrightarrow>
     (9 \<le> c \<and> c \<le> 13) \<or> (28 \<le> c \<and> c \<le> 32) \<or> c = 133 \<or> c = 160 \<or> c = 5760
     \<or> (8192 \<le> c \<and> c \<le> 8202) \<or> c = 8232 \<or> c = 8233 \<or> c = 8239 \<or> c = 8287
     \<or> c = 12288"

definition py_strip :: "pystr \<Rightarrow> pystr" where
  "py_strip s = rev (dropWhile py_isspace (rev (dropWhile py_isspace s)))"

definition startswith :: "'a list \<Rightarrow> 'a list \<Rightarrow> bool" where
  "startswith s p \<longleftrightarrow> take (length p) s = p"

text \<open>\<open>sub in s\<close>, for strings and for bytes.\<close>

fun py_in :: "'a list \<Rightarrow> 'a list \<Rightarrow> bool" where
  "py_in sub [] \<longleftrightarrow> sub = []"
| "py_in sub (c # cs) \<longleftrightarrow> startswith (c # cs) sub \<or> py_in sub cs"

text \<open>\<open>s.split(sep, 1)[0]\<close>: what stands before the first \<open>sep\<close>, or all of \<open>s\<close>.\<close>

fun split_first :: "'a list \<Rightarrow> 'a list \<Rightarrow> 'a list" where
  "split_first sep [] = []"
| "split_first sep (c # cs) = (if startswith (c # cs) sep then [] else c # split_first sep cs)"

subsection \<open>UTF-8\<close>

text \<open>
  \<open>bytes.decode(errors="replace")\<close>: UTF-8, where each maximal ill-formed run of bytes
  becomes one U+FFFD. It never raises. The function works on the values of the bytes.
\<close>

definition is_continuation :: "nat \<Rightarrow> bool" where
  "is_continuation b \<longleftrightarrow> 128 \<le> b \<and> b < 192"

fun utf8_decode_values :: "nat list \<Rightarrow> pystr" where
  "utf8_decode_values [] = []"
| "utf8_decode_values (b0 # bs) =
     (if b0 < 128 then b0 # utf8_decode_values bs
      else if b0 < 194 \<or> 245 \<le> b0 then 65533 # utf8_decode_values bs
      else if b0 < 224 then
        (case bs of
           [] \<Rightarrow> [65533]
         | b1 # r1 \<Rightarrow>
             if is_continuation b1 then ((b0 - 192) * 64 + (b1 - 128)) # utf8_decode_values r1
             else 65533 # utf8_decode_values bs)
      else if b0 < 240 then
        (case bs of
           [] \<Rightarrow> [65533]
         | b1 # r1 \<Rightarrow>
             if \<not> is_continuation b1 \<or> (if b1 < 160 then b0 = 224 else b0 = 237)
             then 65533 # utf8_decode_values bs
             else
               (case r1 of
                  [] \<Rightarrow> [65533]
                | b2 # r2 \<Rightarrow>
                    if is_continuation b2
                    then ((b0 - 224) * 4096 + (b1 - 128) * 64 + (b2 - 128))
                           # utf8_decode_values r2
                    else 65533 # utf8_decode_values r1))
      else
        (case bs of
           [] \<Rightarrow> [65533]
         | b1 # r1 \<Rightarrow>
             if \<not> is_continuation b1 \<or> (if b1 < 144 then b0 = 240 else b0 = 244)
             then 65533 # utf8_decode_values bs
             else
               (case r1 of
                  [] \<Rightarrow> [65533]
                | b2 # r2 \<Rightarrow>
                    if \<not> is_continuation b2 then 65533 # utf8_decode_values r1
                    else
                      (case r2 of
                         [] \<Rightarrow> [65533]
                       | b3 # r3 \<Rightarrow>
                           if is_continuation b3
                           then ((b0 - 240) * 262144 + (b1 - 128) * 4096 + (b2 - 128) * 64
                                   + (b3 - 128)) # utf8_decode_values r3
                           else 65533 # utf8_decode_values r2))))"

definition decode_replace :: "bytes \<Rightarrow> pystr" where
  "decode_replace bs = utf8_decode_values (map unat bs)"

text \<open>
  \<open>str.encode()\<close>: UTF-8; a surrogate code point cannot be encoded and raises
  \<open>UnicodeEncodeError\<close>. (A \<open>str\<close> holds no code point above U+10FFFF.)
\<close>

definition utf8_encode_char :: "nat \<Rightarrow> bytes option" where
  "utf8_encode_char c =
     (if c < 128 then Some [of_nat c]
      else if c < 2048 then Some [of_nat (192 + c div 64), of_nat (128 + c mod 64)]
      else if 55296 \<le> c \<and> c < 57344 then None
      else if c < 65536 then
        Some [of_nat (224 + c div 4096), of_nat (128 + c div 64 mod 64), of_nat (128 + c mod 64)]
      else if c < 1114112 then
        Some [of_nat (240 + c div 262144), of_nat (128 + c div 4096 mod 64),
              of_nat (128 + c div 64 mod 64), of_nat (128 + c mod 64)]
      else None)"

fun encode_utf8 :: "pystr \<Rightarrow> bytes option" where
  "encode_utf8 [] = Some []"
| "encode_utf8 (c # cs) =
     (case utf8_encode_char c of
        None \<Rightarrow> None
      | Some bs \<Rightarrow> (case encode_utf8 cs of None \<Rightarrow> None | Some rest \<Rightarrow> Some (bs @ rest)))"

subsection \<open>Base64\<close>

definition b64_char :: "nat \<Rightarrow> nat" where
  "b64_char n =
     (if n < 26 then 65 + n else if n < 52 then 97 + (n - 26)
      else if n < 62 then 48 + (n - 52) else if n = 62 then 43 else 47)"

fun b64encode_values :: "nat list \<Rightarrow> pystr" where
  "b64encode_values (a # b # c # rest) =
     [b64_char (a div 4), b64_char ((a mod 4) * 16 + b div 16),
      b64_char ((b mod 16) * 4 + c div 64), b64_char (c mod 64)] @ b64encode_values rest"
| "b64encode_values [a, b] =
     [b64_char (a div 4), b64_char ((a mod 4) * 16 + b div 16), b64_char ((b mod 16) * 4), 61]"
| "b64encode_values [a] = [b64_char (a div 4), b64_char ((a mod 4) * 16), 61, 61]"
| "b64encode_values [] = []"

text \<open>\<open>base64.b64encode(bs).decode()\<close>.\<close>

definition b64encode :: "bytes \<Rightarrow> pystr" where
  "b64encode bs = b64encode_values (map unat bs)"

section \<open>JSON values\<close>

text \<open>
  What \<open>json.loads\<close> returns. A \<open>dict\<close> keeps its keys in insertion order, so it is a
  list of pairs. Floats are outside this model: the type \<open>'f\<close> of floats and what the
  interpreter does with them are parameters, and so is \<open>repr\<close> of a \<open>str\<close>, which depends
  on the Unicode database.
\<close>

datatype 'f json =
    JNull
  | JBool bool
  | JInt int
  | JFloat 'f
  | JString pystr
  | JArray "'f json list"
  | JObject "(pystr \<times> 'f json) list"

record 'f pyrt =
  float_of_str :: "pystr \<Rightarrow> 'f"
  float_repr :: "'f \<Rightarrow> pystr"
  float_nonzero :: "'f \<Rightarrow> bool"
  float_json :: "'f \<Rightarrow> pystr"
  str_repr :: "pystr \<Rightarrow> pystr"

subsection \<open>\<open>str\<close> and \<open>repr\<close>\<close>

fun nat_digits :: "nat \<Rightarrow> pystr" where
  "nat_digits n = (if n < 10 then [48 + n] else nat_digits (n div 10) @ [48 + n mod 10])"

declare nat_digits.simps [simp del]

definition int_str :: "int \<Rightarrow> pystr" where
  "int_str i = (if i < 0 then 45 # nat_digits (nat (- i)) else nat_digits (nat i))"

text \<open>\<open>sep.join(items)\<close>.\<close>

fun join :: "pystr \<Rightarrow> pystr list \<Rightarrow> pystr" where
  "join sep [] = []"
| "join sep [x] = x"
| "join sep (x # y # ys) = x @ sep @ join sep (y # ys)"

fun py_repr :: "'f pyrt \<Rightarrow> 'f json \<Rightarrow> pystr"
  and py_repr_list :: "'f pyrt \<Rightarrow> 'f json list \<Rightarrow> pystr list"
  and py_repr_items :: "'f pyrt \<Rightarrow> (pystr \<times> 'f json) list \<Rightarrow> pystr list" where
  "py_repr rt JNull = str ''None''"
| "py_repr rt (JBool b) = (if b then str ''True'' else str ''False'')"
| "py_repr rt (JInt i) = int_str i"
| "py_repr rt (JFloat x) = float_repr rt x"
| "py_repr rt (JString s) = str_repr rt s"
| "py_repr rt (JArray xs) = str ''['' @ join (str '', '') (py_repr_list rt xs) @ str '']''"
| "py_repr rt (JObject kvs) = str ''{'' @ join (str '', '') (py_repr_items rt kvs) @ str ''}''"
| "py_repr_list rt [] = []"
| "py_repr_list rt (x # xs) = py_repr rt x # py_repr_list rt xs"
| "py_repr_items rt [] = []"
| "py_repr_items rt ((k, v) # kvs) =
     (str_repr rt k @ str '': '' @ py_repr rt v) # py_repr_items rt kvs"

text \<open>\<open>str(v)\<close>, which is also how an f-string formats \<open>v\<close>.\<close>

definition py_str :: "'f pyrt \<Rightarrow> 'f json \<Rightarrow> pystr" where
  "py_str rt v = (case v of JString s \<Rightarrow> s | _ \<Rightarrow> py_repr rt v)"

text \<open>The truth value of \<open>v\<close>, as \<open>or\<close> and \<open>if\<close> take it.\<close>

definition truthy :: "'f pyrt \<Rightarrow> 'f json \<Rightarrow> bool" where
  "truthy rt v =
     (case v of
        JNull \<Rightarrow> False
      | JBool b \<Rightarrow> b
      | JInt i \<Rightarrow> i \<noteq> 0
      | JFloat x \<Rightarrow> float_nonzero rt x
      | JString s \<Rightarrow> s \<noteq> []
      | JArray xs \<Rightarrow> xs \<noteq> []
      | JObject kvs \<Rightarrow> kvs \<noteq> [])"

definition py_or :: "'f pyrt \<Rightarrow> 'f json \<Rightarrow> 'f json \<Rightarrow> 'f json" where
  "py_or rt a b = (if truthy rt a then a else b)"

subsection \<open>\<open>json.dumps\<close>\<close>

definition hex_digit :: "nat \<Rightarrow> nat" where
  "hex_digit n = (if n < 10 then 48 + n else 97 + (n - 10))"

definition u_escape :: "nat \<Rightarrow> pystr" where
  "u_escape n =
     [92, 117, hex_digit (n div 4096 mod 16), hex_digit (n div 256 mod 16),
      hex_digit (n div 16 mod 16), hex_digit (n mod 16)]"

text \<open>
  One character of a JSON string literal. With \<open>ensure_ascii\<close> everything outside the
  printable ASCII range is escaped (a code point above U+FFFF as a surrogate pair); without
  it only the quote, the backslash and the control characters below U+0020 are.
\<close>

definition json_escape_char :: "bool \<Rightarrow> nat \<Rightarrow> pystr" where
  "json_escape_char ensure_ascii c =
     (if c = 34 then [92, 34]
      else if c = 92 then [92, 92]
      else if c = 10 then [92, 110]
      else if c = 13 then [92, 114]
      else if c = 9 then [92, 116]
      else if c = 8 then [92, 98]
      else if c = 12 then [92, 102]
      else if c < 32 then u_escape c
      else if \<not> ensure_ascii \<or> c < 127 then [c]
      else if c < 65536 then u_escape c
      else u_escape (55296 + (c - 65536) div 1024 mod 1024)
             @ u_escape (56320 + (c - 65536) mod 1024))"

definition json_string :: "bool \<Rightarrow> pystr \<Rightarrow> pystr" where
  "json_string ensure_ascii s = [34] @ concat (map (json_escape_char ensure_ascii) s) @ [34]"

text \<open>
  \<open>json.dumps(v, ensure_ascii=..., separators=(item_sep, key_sep))\<close>. The client never
  passes \<open>separators\<close>, so every call of its own uses the default, \<open>", "\<close> and \<open>": "\<close>.
\<close>

fun json_dumps :: "'f pyrt \<Rightarrow> bool \<Rightarrow> pystr \<times> pystr \<Rightarrow> 'f json \<Rightarrow> pystr"
  and json_dumps_list :: "'f pyrt \<Rightarrow> bool \<Rightarrow> pystr \<times> pystr \<Rightarrow> 'f json list \<Rightarrow> pystr list"
  and json_dumps_items ::
    "'f pyrt \<Rightarrow> bool \<Rightarrow> pystr \<times> pystr \<Rightarrow> (pystr \<times> 'f json) list \<Rightarrow> pystr list" where
  "json_dumps rt ensure_ascii seps JNull = str ''null''"
| "json_dumps rt ensure_ascii seps (JBool b) = (if b then str ''true'' else str ''false'')"
| "json_dumps rt ensure_ascii seps (JInt i) = int_str i"
| "json_dumps rt ensure_ascii seps (JFloat x) = float_json rt x"
| "json_dumps rt ensure_ascii seps (JString s) = json_string ensure_ascii s"
| "json_dumps rt ensure_ascii seps (JArray xs) =
     str ''['' @ join (fst seps) (json_dumps_list rt ensure_ascii seps xs) @ str '']''"
| "json_dumps rt ensure_ascii seps (JObject kvs) =
     str ''{'' @ join (fst seps) (json_dumps_items rt ensure_ascii seps kvs) @ str ''}''"
| "json_dumps_list rt ensure_ascii seps [] = []"
| "json_dumps_list rt ensure_ascii seps (x # xs) =
     json_dumps rt ensure_ascii seps x # json_dumps_list rt ensure_ascii seps xs"
| "json_dumps_items rt ensure_ascii seps [] = []"
| "json_dumps_items rt ensure_ascii seps ((k, v) # kvs) =
     (json_string ensure_ascii k @ snd seps @ json_dumps rt ensure_ascii seps v)
       # json_dumps_items rt ensure_ascii seps kvs"

definition default_separators :: "pystr \<times> pystr" where
  "default_separators = (str '', '', str '': '')"

subsection \<open>\<open>json.loads\<close>\<close>

text \<open>
  The reader follows the scanner of the \<open>json\<close> module: white space is blank, tab, line
  feed and carriage return; strings are read in strict mode; \<open>NaN\<close>, \<open>Infinity\<close> and
  \<open>-Infinity\<close> are accepted. \<open>None\<close> stands for \<open>JSONDecodeError\<close>. This is
  \<open>json.loads\<close> for an interpreter without limits on the depth of recursion and on the
  digits of an \<open>int\<close>; \<open>json_loads_limited\<close> below is \<open>json.loads\<close> with them, and
  raises where they are passed.
\<close>

definition is_ws :: "nat \<Rightarrow> bool" where
  "is_ws c \<longleftrightarrow> c = 32 \<or> c = 9 \<or> c = 10 \<or> c = 13"

definition skip_ws :: "pystr \<Rightarrow> pystr" where
  "skip_ws s = dropWhile is_ws s"

definition is_digit :: "nat \<Rightarrow> bool" where
  "is_digit c \<longleftrightarrow> 48 \<le> c \<and> c \<le> 57"

definition hex_value :: "nat \<Rightarrow> nat option" where
  "hex_value c =
     (if 48 \<le> c \<and> c \<le> 57 then Some (c - 48)
      else if 97 \<le> c \<and> c \<le> 102 then Some (c - 87)
      else if 65 \<le> c \<and> c \<le> 70 then Some (c - 55)
      else None)"

text \<open>Four hexadecimal digits and what follows them.\<close>

definition hex4 :: "pystr \<Rightarrow> (nat \<times> pystr) option" where
  "hex4 s =
     (case s of
        h1 # h2 # h3 # h4 # rest \<Rightarrow>
          (case (hex_value h1, hex_value h2, hex_value h3, hex_value h4) of
             (Some a, Some b, Some c, Some d) \<Rightarrow> Some (a * 4096 + b * 256 + c * 16 + d, rest)
           | _ \<Rightarrow> None)
      | _ \<Rightarrow> None)"

definition escape_char :: "nat \<Rightarrow> nat option" where
  "escape_char e =
     (if e = 34 then Some 34
      else if e = 92 then Some 92
      else if e = 47 then Some 47
      else if e = 98 then Some 8
      else if e = 102 then Some 12
      else if e = 110 then Some 10
      else if e = 114 then Some 13
      else if e = 116 then Some 9
      else None)"

text \<open>
  After a \<open>\<bsol>uXXXX\<close> escape with value \<open>uni\<close>: a high surrogate directly followed by the
  escape of a low surrogate is one code point.
\<close>

definition unicode_escape :: "nat \<Rightarrow> pystr \<Rightarrow> nat \<times> pystr" where
  "unicode_escape uni rest =
     (if 55296 \<le> uni \<and> uni \<le> 56319 then
        (case rest of
           b # u # rest' \<Rightarrow>
             if b = 92 \<and> u = 117 then
               (case hex4 rest' of
                  Some (uni2, rest'') \<Rightarrow>
                    if 56320 \<le> uni2 \<and> uni2 \<le> 57343
                    then (65536 + (uni - 55296) * 1024 + (uni2 - 56320), rest'')
                    else (uni, rest)
                | None \<Rightarrow> (uni, rest))
             else (uni, rest)
         | _ \<Rightarrow> (uni, rest))
      else (uni, rest))"

lemma hex4_length: "hex4 s = Some (n, rest) \<Longrightarrow> length rest < length s"
  by (auto simp: hex4_def split: list.splits option.splits)

lemma unicode_escape_length: "unicode_escape uni rest = (c, rest') \<Longrightarrow> length rest' \<le> length rest"
  by (auto simp: unicode_escape_def split: if_splits list.splits option.splits dest!: hex4_length)

text \<open>The rest of a string literal, after its opening quote: the string and what follows.\<close>

function scanstring :: "pystr \<Rightarrow> (pystr \<times> pystr) option" where
  "scanstring [] = None"
| "scanstring (c # cs) =
     (if c = 34 then Some ([], cs)
      else if c = 92 then
        (case cs of
           [] \<Rightarrow> None
         | e # r \<Rightarrow>
             if e = 117 then
               (case hex4 r of
                  None \<Rightarrow> None
                | Some (uni, r1) \<Rightarrow>
                    (case unicode_escape uni r1 of
                       (ch, r2) \<Rightarrow>
                         (case scanstring r2 of
                            None \<Rightarrow> None
                          | Some (s, rest) \<Rightarrow> Some (ch # s, rest))))
             else
               (case escape_char e of
                  None \<Rightarrow> None
                | Some ch \<Rightarrow>
                    (case scanstring r of
                       None \<Rightarrow> None
                     | Some (s, rest) \<Rightarrow> Some (ch # s, rest))))
      else if c < 32 then None
      else
        (case scanstring cs of
           None \<Rightarrow> None
         | Some (s, rest) \<Rightarrow> Some (c # s, rest)))"
  by pat_completeness auto
termination
  by (relation "measure length")
     (auto dest!: hex4_length unicode_escape_length [OF sym])

declare scanstring.simps [simp del]

definition digits_value :: "pystr \<Rightarrow> nat" where
  "digits_value ds = foldl (\<lambda>acc d. 10 * acc + (d - 48)) 0 ds"

text \<open>
  A number, by the scanner's pattern \<open>(-?(?:0|[1-9][0-9]*))(\.[0-9]+)?([eE][-+]?[0-9]+)?\<close>:
  the integer part, the fraction and the exponent as they stand in the text, and what follows.
\<close>

definition scan_integer :: "pystr \<Rightarrow> (pystr \<times> pystr) option" where
  "scan_integer s =
     (case s of
        [] \<Rightarrow> None
      | d # r \<Rightarrow>
          if d = 48 then Some ([d], r)
          else if 49 \<le> d \<and> d \<le> 57 then Some (d # takeWhile is_digit r, dropWhile is_digit r)
          else None)"

definition scan_frac :: "pystr \<Rightarrow> pystr \<times> pystr" where
  "scan_frac s =
     (case s of
        p # d # r \<Rightarrow>
          if p = 46 \<and> is_digit d then (p # takeWhile is_digit (d # r), dropWhile is_digit (d # r))
          else ([], s)
      | _ \<Rightarrow> ([], s))"

definition scan_exp :: "pystr \<Rightarrow> pystr \<times> pystr" where
  "scan_exp s =
     (case s of
        [] \<Rightarrow> ([], s)
      | e # r \<Rightarrow>
          if e = 101 \<or> e = 69 then
            (let (sign, r1) = (case r of
                                 [] \<Rightarrow> ([], r)
                               | g # r' \<Rightarrow> if g = 45 \<or> g = 43 then ([g], r') else ([], r))
             in case r1 of
                  [] \<Rightarrow> ([], s)
                | d # r2 \<Rightarrow>
                    if is_digit d
                    then (e # sign @ takeWhile is_digit r1, dropWhile is_digit r1)
                    else ([], s))
          else ([], s))"

definition scan_number :: "'f pyrt \<Rightarrow> pystr \<Rightarrow> ('f json \<times> pystr) option" where
  "scan_number rt s =
     (let (sign, s1) = (case s of
                          [] \<Rightarrow> ([], s)
                        | c # r \<Rightarrow> if c = 45 then ([c], r) else ([], s))
      in case scan_integer s1 of
           None \<Rightarrow> None
         | Some (digits, s2) \<Rightarrow>
             (let (frac, s3) = scan_frac s2;
                  (exp, s4) = scan_exp s3
              in if frac = [] \<and> exp = [] then
                   Some (JInt (if sign = [] then int (digits_value digits)
                               else - int (digits_value digits)), s4)
                 else Some (JFloat (float_of_str rt (sign @ digits @ frac @ exp)), s4)))"

lemma scanstring_length: "scanstring s = Some (x, rest) \<Longrightarrow> length rest < length s"
proof (induction s arbitrary: x rest rule: scanstring.induct)
  case 1
  then show ?case by (simp add: scanstring.simps)
next
  case (2 c cs)
  from "2.prems" "2.IH" show ?case
    by (fastforce simp: scanstring.simps dest: hex4_length unicode_escape_length
          split: if_splits option.splits list.splits prod.splits)
qed

lemma length_skip_ws: "length (skip_ws s) \<le> length s"
  by (simp add: skip_ws_def length_dropWhile_le)

lemma skip_ws_Cons_length: "skip_ws s = c # r \<Longrightarrow> length r < length s"
  using length_skip_ws [of s] by simp

lemma skip_ws_chain: "length (skip_ws s) < n \<or> length s < n \<Longrightarrow> length (skip_ws s) < n"
  using length_skip_ws [of s] by auto

text \<open>\<open>d[k] = v\<close>: a key that is there keeps its place.\<close>

fun dict_set :: "(pystr \<times> 'v) list \<Rightarrow> pystr \<Rightarrow> 'v \<Rightarrow> (pystr \<times> 'v) list" where
  "dict_set [] k v = [(k, v)]"
| "dict_set ((k', v') # kvs) k v =
     (if k' = k then (k', v) # kvs else (k', v') # dict_set kvs k v)"

text \<open>
  One value at the head of the text; the elements of an array, from its first value on; the
  members of an object, from after the opening quote of a key on. Each asks, of what a
  nested value left unread, that it be shorter than what the value was read from: that
  makes the recursion well-founded, and \<open>parse_value_length\<close> shows that it always holds.
\<close>

function parse_value :: "'f pyrt \<Rightarrow> pystr \<Rightarrow> ('f json \<times> pystr) option"
  and parse_elements :: "'f pyrt \<Rightarrow> 'f json list \<Rightarrow> pystr \<Rightarrow> ('f json list \<times> pystr) option"
  and parse_members :: "'f pyrt \<Rightarrow> (pystr \<times> 'f json) list \<Rightarrow> pystr
                         \<Rightarrow> ((pystr \<times> 'f json) list \<times> pystr) option" where
  "parse_value rt s =
     (case s of
        [] \<Rightarrow> None
      | c # r \<Rightarrow>
          if c = 34 then
            (case scanstring r of
               None \<Rightarrow> None
             | Some (x, rest) \<Rightarrow> Some (JString x, rest))
          else if c = 123 then
            (case skip_ws r of
               [] \<Rightarrow> None
             | d # r' \<Rightarrow>
                 if d = 125 then Some (JObject [], r')
                 else if d = 34 then
                   (case parse_members rt [] r' of
                      None \<Rightarrow> None
                    | Some (kvs, rest) \<Rightarrow> Some (JObject kvs, rest))
                 else None)
          else if c = 91 then
            (case skip_ws r of
               [] \<Rightarrow> None
             | d # r' \<Rightarrow>
                 if d = 93 then Some (JArray [], r')
                 else
                   (case parse_elements rt [] (d # r') of
                      None \<Rightarrow> None
                    | Some (xs, rest) \<Rightarrow> Some (JArray xs, rest)))
          else if startswith s (str ''null'') then Some (JNull, drop 4 s)
          else if startswith s (str ''true'') then Some (JBool True, drop 4 s)
          else if startswith s (str ''false'') then Some (JBool False, drop 5 s)
          else
            (case scan_number rt s of
               Some res \<Rightarrow> Some res
             | None \<Rightarrow>
                 if startswith s (str ''NaN'')
                 then Some (JFloat (float_of_str rt (str ''nan'')), drop 3 s)
                 else if startswith s (str ''Infinity'')
                 then Some (JFloat (float_of_str rt (str ''inf'')), drop 8 s)
                 else if startswith s (str ''-Infinity'')
                 then Some (JFloat (float_of_str rt (str ''-inf'')), drop 9 s)
                 else None))"
| "parse_elements rt acc s =
     (case parse_value rt s of
        None \<Rightarrow> None
      | Some (v, r) \<Rightarrow>
          if length r < length s then
            (case skip_ws r of
               [] \<Rightarrow> None
             | d # r' \<Rightarrow>
                 if d = 93 then Some (acc @ [v], r')
                 else if d = 44 then parse_elements rt (acc @ [v]) (skip_ws r')
                 else None)
          else None)"
| "parse_members rt acc s =
     (case scanstring s of
        None \<Rightarrow> None
      | Some (key, r) \<Rightarrow>
          (case skip_ws r of
             [] \<Rightarrow> None
           | c # r1 \<Rightarrow>
               if c = 58 then
                 (case parse_value rt (skip_ws r1) of
                    None \<Rightarrow> None
                  | Some (v, r2) \<Rightarrow>
                      if length r2 < length (skip_ws r1) then
                        (case skip_ws r2 of
                           [] \<Rightarrow> None
                         | d # r3 \<Rightarrow>
                             if d = 125 then Some (dict_set acc key v, r3)
                             else if d = 44 then
                               (case skip_ws r3 of
                                  [] \<Rightarrow> None
                                | q # r4 \<Rightarrow>
                                    if q = 34 then parse_members rt (dict_set acc key v) r4
                                    else None)
                             else None)
                      else None)
               else None))"
  by pat_completeness auto
termination
proof (relation "measure (\<lambda>x. case x of
            Inl (rt, s) \<Rightarrow> 2 * length s
          | Inr (Inl (rt, acc, s)) \<Rightarrow> 2 * length s + 1
          | Inr (Inr (rt, acc, s)) \<Rightarrow> 2 * length s + 1)", goal_cases)
  case 1
  show ?case by simp
next
  case (2 rt s c r d r')
  then show ?case using skip_ws_Cons_length [of r d r'] by simp
next
  case (3 rt s c r d r')
  then show ?case using skip_ws_Cons_length [of r d r'] by simp
next
  case (4 rt acc s)
  show ?case by simp
next
  case (5 rt acc s x v r d r')
  then show ?case using length_skip_ws [of r'] skip_ws_Cons_length [of r d r'] by simp
next
  case (6 rt acc s x key r c r1)
  then show ?case
    using scanstring_length [of s key r] skip_ws_Cons_length [of r c r1] length_skip_ws [of r1]
    by simp
next
  case (7 rt acc s x key r c r1 y v r2 d r3 q r4)
  then show ?case
    using scanstring_length [of s key r] skip_ws_Cons_length [of r c r1] length_skip_ws [of r1]
      skip_ws_Cons_length [of r2 d r3] skip_ws_Cons_length [of r3 q r4]
    by simp
qed

declare parse_value.simps [simp del] parse_elements.simps [simp del] parse_members.simps [simp del]

definition json_loads :: "'f pyrt \<Rightarrow> pystr \<Rightarrow> 'f json option" where
  "json_loads rt s =
     (case parse_value rt (skip_ws s) of
        None \<Rightarrow> None
      | Some (v, rest) \<Rightarrow> if skip_ws rest = [] then Some v else None)"

lemma scan_integer_length: "scan_integer s = Some (ds, r) \<Longrightarrow> length r < length s"
  by (auto simp: scan_integer_def length_dropWhile_le less_Suc_eq_le split: list.splits if_splits)

lemma scan_frac_length: "scan_frac s = (f, r) \<Longrightarrow> length r \<le> length s"
  by (auto simp: scan_frac_def length_dropWhile_le le_SucI split: list.splits if_splits)

lemma scan_exp_length: "scan_exp s = (e, r) \<Longrightarrow> length r \<le> length s"
  by (auto simp: scan_exp_def Let_def le_SucI intro: le_trans [OF length_dropWhile_le]
      split: list.splits if_splits prod.splits)

lemma scan_number_length: "scan_number rt s = Some (v, r) \<Longrightarrow> length r < length s"
proof -
  assume a: "scan_number rt s = Some (v, r)"
  obtain sign s1 where s1: "(case s of [] \<Rightarrow> ([], s)
      | c # r \<Rightarrow> if c = 45 then ([c], r) else ([], s)) = (sign, s1)"
    by (cases "(case s of [] \<Rightarrow> ([], s) | c # r \<Rightarrow> if c = 45 then ([c], r) else ([], s))")
  then have l1: "length s1 \<le> length s" by (auto split: list.splits if_splits)
  from a s1 obtain ds s2 where i: "scan_integer s1 = Some (ds, s2)"
    by (auto simp: scan_number_def split: option.splits)
  obtain f s3 where f: "scan_frac s2 = (f, s3)" by (cases "scan_frac s2")
  obtain e s4 where e: "scan_exp s3 = (e, s4)" by (cases "scan_exp s3")
  from a s1 i f e have "r = s4" by (auto simp: scan_number_def split: if_splits)
  with l1 scan_integer_length [OF i] scan_frac_length [OF f] scan_exp_length [OF e]
  show ?thesis by simp
qed

lemma parse_length_all:
  "(\<forall>v r. parse_value rt s = Some (v, r) \<longrightarrow> length r < length s)
   \<and> (\<forall>xs r. parse_elements rt acc s = Some (xs, r) \<longrightarrow> length r < length s)
   \<and> (\<forall>kvs r. parse_members rt acc' s = Some (kvs, r) \<longrightarrow> length r < length s)"
proof -
  let ?P = "\<lambda>(rt::'a pyrt) s. \<forall>v r. parse_value rt s = Some (v, r) \<longrightarrow> length r < length s"
  let ?Q = "\<lambda>(rt::'a pyrt) acc s.
      \<forall>xs r. parse_elements rt acc s = Some (xs, r) \<longrightarrow> length r < length s"
  let ?R = "\<lambda>(rt::'a pyrt) acc s.
      \<forall>kvs r. parse_members rt acc s = Some (kvs, r) \<longrightarrow> length r < length s"
  have value_case: "?P rt s"
    if IH_R: "\<And>c r0 d r1. \<lbrakk>s = c # r0; c \<noteq> 34; c = 123; skip_ws r0 = d # r1; d \<noteq> 125; d = 34\<rbrakk>
                 \<Longrightarrow> ?R rt [] r1"
    and IH_Q: "\<And>c r0 d r1. \<lbrakk>s = c # r0; c \<noteq> 34; c \<noteq> 123; c = 91; skip_ws r0 = d # r1; d \<noteq> 93\<rbrakk>
                 \<Longrightarrow> ?Q rt [] (d # r1)"
    for rt :: "'a pyrt" and s
  proof (intro allI impI)
    fix v r
    assume pv: "parse_value rt s = Some (v, r)"
    then obtain c r0 where s: "s = c # r0"
      by (cases s) (auto simp: parse_value.simps)
    consider (string) "c = 34" | (object) "c \<noteq> 34" "c = 123" | (array) "c \<noteq> 34" "c \<noteq> 123" "c = 91"
      | (other) "c \<noteq> 34" "c \<noteq> 123" "c \<noteq> 91" by blast
    then show "length r < length s"
    proof cases
      case string
      with pv s obtain x where "scanstring r0 = Some (x, r)"
        by (auto simp: parse_value.simps split: option.splits)
      with s show ?thesis using scanstring_length [of r0 x r] by simp
    next
      case object
      with pv s obtain d r1 where sk: "skip_ws r0 = d # r1"
        by (cases "skip_ws r0") (auto simp: parse_value.simps)
      show ?thesis
      proof (cases "d = 125")
        case True
        with pv s object sk have "r = r1" by (simp add: parse_value.simps)
        with s sk show ?thesis using skip_ws_Cons_length [of r0 d r1] by simp
      next
        case False
        with pv s object sk obtain kvs where d: "d = 34"
          and "parse_members rt [] r1 = Some (kvs, r)"
          by (auto simp: parse_value.simps split: if_splits option.splits)
        with IH_R [OF s object sk False d] have "length r < length r1" by blast
        with s sk show ?thesis using skip_ws_Cons_length [of r0 d r1] by simp
      qed
    next
      case array
      with pv s obtain d r1 where sk: "skip_ws r0 = d # r1"
        by (cases "skip_ws r0") (auto simp: parse_value.simps)
      show ?thesis
      proof (cases "d = 93")
        case True
        with pv s array sk have "r = r1" by (simp add: parse_value.simps)
        with s sk show ?thesis using skip_ws_Cons_length [of r0 d r1] by simp
      next
        case False
        with pv s array sk obtain xs where "parse_elements rt [] (d # r1) = Some (xs, r)"
          by (auto simp: parse_value.simps split: option.splits)
        with IH_Q [OF s array sk False] have "length r < length (d # r1)" by blast
        with s sk show ?thesis using length_skip_ws [of r0] by simp
      qed
    next
      case other
      from pv s have "parse_value rt (c # r0) = Some (v, r)" by simp
      with other have
        "r = drop 4 (c # r0) \<or> r = drop 5 (c # r0) \<or> scan_number rt (c # r0) = Some (v, r)
         \<or> r = drop 3 (c # r0) \<or> r = drop 8 (c # r0) \<or> r = drop 9 (c # r0)"
        by (auto simp: parse_value.simps split: if_splits option.splits)
      with s show ?thesis
        using scan_number_length [of rt s v r] by auto
    qed
  qed
  have elements_case: "?Q rt acc s"
    if IH_P: "?P rt s"
    and IH_Q: "\<And>x2 v r d r1. \<lbrakk>parse_value rt s = Some x2; (v, r) = x2; length r < length s;
                  skip_ws r = d # r1; d \<noteq> 93; d = 44\<rbrakk> \<Longrightarrow> ?Q rt (acc @ [v]) (skip_ws r1)"
    for rt :: "'a pyrt" and acc s
  proof (intro allI impI)
    fix xs r'
    assume pe: "parse_elements rt acc s = Some (xs, r')"
    then obtain v r where pv: "parse_value rt s = Some (v, r)"
      by (auto simp: parse_elements.simps [of rt acc s] split: option.splits)
    with IH_P have lt: "length r < length s" by blast
    from pe pv lt obtain d r1 where sk: "skip_ws r = d # r1"
      by (cases "skip_ws r") (auto simp: parse_elements.simps [of rt acc s])
    show "length r' < length s"
    proof (cases "d = 93")
      case True
      with pe pv lt sk have "r' = r1" by (simp add: parse_elements.simps [of rt acc s])
      with lt sk show ?thesis using skip_ws_Cons_length [of r d r1] by simp
    next
      case False
      with pe pv lt sk have d: "d = 44"
        and "parse_elements rt (acc @ [v]) (skip_ws r1) = Some (xs, r')"
        by (auto simp: parse_elements.simps [of rt acc s] split: if_splits)
      with IH_Q [OF pv refl lt sk False d] have "length r' < length (skip_ws r1)" by blast
      with lt sk show ?thesis
        using skip_ws_Cons_length [of r d r1] length_skip_ws [of r1] by simp
    qed
  qed
  have members_case: "?R rt acc s"
    if IH_P: "\<And>x2 key r c r1. \<lbrakk>scanstring s = Some x2; (key, r) = x2; skip_ws r = c # r1; c = 58\<rbrakk>
                 \<Longrightarrow> ?P rt (skip_ws r1)"
    and IH_R: "\<And>x2 key r c r1 x2a v r2 d r3 q r4.
                 \<lbrakk>scanstring s = Some x2; (key, r) = x2; skip_ws r = c # r1; c = 58;
                  parse_value rt (skip_ws r1) = Some x2a; (v, r2) = x2a;
                  length r2 < length (skip_ws r1); skip_ws r2 = d # r3; d \<noteq> 125; d = 44;
                  skip_ws r3 = q # r4; q = 34\<rbrakk>
                 \<Longrightarrow> ?R rt (dict_set acc key v) r4"
    for rt :: "'a pyrt" and acc s
  proof (intro allI impI)
    fix kvs r'
    assume pm: "parse_members rt acc s = Some (kvs, r')"
    then obtain key r where ss: "scanstring s = Some (key, r)"
      by (auto simp: parse_members.simps [of rt acc s] split: option.splits)
    with pm obtain c r1 where sk: "skip_ws r = c # r1"
      by (cases "skip_ws r") (auto simp: parse_members.simps [of rt acc s])
    with pm ss have c: "c = 58"
      by (auto simp: parse_members.simps [of rt acc s] split: if_splits)
    with pm ss sk obtain v r2 where pv: "parse_value rt (skip_ws r1) = Some (v, r2)"
      by (auto simp: parse_members.simps [of rt acc s] split: option.splits)
    with IH_P [OF ss refl sk c] have lt: "length r2 < length (skip_ws r1)" by blast
    from pm ss sk c pv lt obtain d r3 where sk2: "skip_ws r2 = d # r3"
      by (cases "skip_ws r2") (auto simp: parse_members.simps [of rt acc s])
    have base: "length r3 < length s"
      using scanstring_length [OF ss] skip_ws_Cons_length [OF sk] length_skip_ws [of r1] lt
        skip_ws_Cons_length [OF sk2] by simp
    show "length r' < length s"
    proof (cases "d = 125")
      case True
      with pm ss sk c pv lt sk2 have "r' = r3" by (simp add: parse_members.simps [of rt acc s])
      with base show ?thesis by simp
    next
      case False
      with pm ss sk c pv lt sk2 have d: "d = 44"
        by (auto simp: parse_members.simps [of rt acc s] split: if_splits)
      with pm ss sk c pv lt sk2 obtain q r4 where sk3: "skip_ws r3 = q # r4"
        by (cases "skip_ws r3") (auto simp: parse_members.simps [of rt acc s])
      with pm ss sk c pv lt sk2 d have q: "q = 34"
        and "parse_members rt (dict_set acc key v) r4 = Some (kvs, r')"
        by (auto simp: parse_members.simps [of rt acc s] split: if_splits)
      with IH_R [OF ss refl sk c pv refl lt sk2 False d sk3 q] have "length r' < length r4"
        by blast
      with base show ?thesis using skip_ws_Cons_length [OF sk3] by simp
    qed
  qed
  have "?P rt s" and "?Q rt acc s" and "?R rt acc' s"
    by (induction rt s and rt acc s and rt acc' s
        rule: parse_value_parse_elements_parse_members.induct)
      (fact value_case elements_case members_case)+
  then show ?thesis by blast
qed

lemma parse_value_length: "parse_value rt s = Some (v, r) \<Longrightarrow> length r < length s"
  using parse_length_all [of rt s] by blast

section \<open>The message normalizer\<close>

record 'f AgUIMessage =
  "text" :: pystr
  raw :: "'f json"

text \<open>\<open>d.get(k)\<close>: \<open>None\<close> for a key that is not there.\<close>

definition dict_get :: "(pystr \<times> 'f json) list \<Rightarrow> pystr \<Rightarrow> 'f json" where
  "dict_get d k = (case map_of d k of None \<Rightarrow> JNull | Some v \<Rightarrow> v)"

text \<open>The local variable \<open>prefix\<close> of \<open>_normalize_message\<close> (lines 193 to 198).\<close>

definition message_prefix :: "'f pyrt \<Rightarrow> (pystr \<times> 'f json) list \<Rightarrow> 'f json" where
  "message_prefix rt parsed =
     py_or rt (py_or rt (py_or rt (dict_get parsed (str ''user''))
                                  (dict_get parsed (str ''sender'')))
                        (dict_get parsed (str ''name'')))
              (dict_get parsed (str ''role''))"

text \<open>The local variable \<open>body\<close> as it stands after line 208.\<close>

definition message_body :: "'f pyrt \<Rightarrow> (pystr \<times> 'f json) list \<Rightarrow> 'f json" where
  "message_body rt parsed =
     (let body = py_or rt (py_or rt (py_or rt (dict_get parsed (str ''message''))
                                              (dict_get parsed (str ''content'')))
                                    (dict_get parsed (str ''text'')))
                          (dict_get parsed (str ''body''))
      in case body of
           JNull \<Rightarrow> JString (json_dumps rt False default_separators (JObject parsed))
         | JArray xs \<Rightarrow> JString (json_dumps rt False default_separators body)
         | JObject d \<Rightarrow> JString (json_dumps rt False default_separators body)
         | _ \<Rightarrow> body)"

text \<open>
  \<open>_normalize_message\<close> (lines 186 to 213) over \<open>json_loads\<close>, which raises nothing but
  \<open>JSONDecodeError\<close>: what the method returns when it returns. \<open>normalize_message_limited\<close>
  below is the method with the exceptions it lets through.
\<close>

definition normalize_message :: "'f pyrt \<Rightarrow> pystr \<Rightarrow> 'f AgUIMessage" where
  "normalize_message rt raw_text =
     (case json_loads rt raw_text of
        None \<Rightarrow> \<lparr>text = raw_text, raw = JString raw_text\<rparr>
      | Some parsed \<Rightarrow>
          (case parsed of
             JObject d \<Rightarrow>
               (let prefix = message_prefix rt d;
                    body = message_body rt d
                in \<lparr>text = (if truthy rt prefix
                            then py_str rt prefix @ str '': '' @ py_str rt body
                            else py_str rt body),
                    raw = parsed\<rparr>)
           | _ \<Rightarrow> \<lparr>text = py_str rt parsed, raw = parsed\<rparr>))"

section \<open>Generators and their caller\<close>

text \<open>
  A stream is run to its end against a caller who takes what it yields. \<open>demand\<close> says how
  long the caller goes on: \<open>None\<close> takes every message; \<open>Some k\<close> resumes the generator
  \<open>k\<close> times and closes it at the next \<open>yield\<close>, which raises \<open>GeneratorExit\<close> there.
  \<open>at_yield\<close> is what the caller does at one \<open>yield\<close>: \<open>None\<close> for closing, otherwise the
  demand that is left.
\<close>

datatype outcome = Exhausted | Closed | Raised exn

definition at_yield :: "nat option \<Rightarrow> nat option option" where
  "at_yield demand =
     (case demand of
        None \<Rightarrow> Some None
      | Some 0 \<Rightarrow> None
      | Some (Suc k) \<Rightarrow> Some (Some k))"

section \<open>The HTTP driver\<close>

text \<open>
  What \<open>urlopen\<close> returns: the lines of the response body, and whether reading past them
  raises (a timeout, a reset) instead of ending the body.
\<close>

record http_response =
  resp_lines :: "bytes list"
  resp_fault :: bool

text \<open>The loop over the response (lines 67 to 73).\<close>

fun http_lines :: "'f pyrt \<Rightarrow> nat option \<Rightarrow> bool \<Rightarrow> bytes list \<Rightarrow> 'f AgUIMessage list \<times> outcome" where
  "http_lines rt demand fault [] = ([], if fault then Raised OSError else Exhausted)"
| "http_lines rt demand fault (raw_line # rest) =
     (let line = py_strip (decode_replace raw_line)
      in if line = [] then http_lines rt demand fault rest
         else
           (let line' = (if startswith line (str ''data:'')
                         then py_strip (drop (length (str ''data:'')) line) else line);
                msg = normalize_message rt line'
            in case at_yield demand of
                 None \<Rightarrow> ([msg], Closed)
               | Some demand' \<Rightarrow>
                   (case http_lines rt demand' fault rest of
                      (msgs, out) \<Rightarrow> (msg # msgs, out))))"

section \<open>The WebSocket driver\<close>

definition crlf :: pystr where
  "crlf = [13, 10]"

text \<open>\<open>_read_http_response_headers\<close>: byte by byte up to the blank line or the end.\<close>

fun rx_size :: "rx_event list \<Rightarrow> nat" where
  "rx_size [] = 0"
| "rx_size (RxFault # rest) = Suc (rx_size rest)"
| "rx_size (RxData chunk # rest) = Suc (length chunk + rx_size rest)"

lemma sock_recv_rx_size:
  "sock_recv n s = (res, s') \<Longrightarrow> rx_size (rx s') \<le> rx_size (rx s)"
  by (auto simp: sock_recv_def split: list.splits rx_event.splits if_splits)

lemma sock_recv_rx_size_less:
  "sock_recv n s = (Inr chunk, s') \<Longrightarrow> chunk \<noteq> [] \<Longrightarrow> rx_size (rx s') < rx_size (rx s)"
  by (auto simp: sock_recv_def split: list.splits rx_event.splits if_splits)

function read_headers_loop :: "bytes \<Rightarrow> sock \<Rightarrow> (exn + bytes) \<times> sock" where
  "read_headers_loop buffer s =
     (if \<not> py_in (map of_nat (crlf @ crlf)) buffer then
        (case sock_recv 1 s of
           (Inl e, s') \<Rightarrow> (Inl e, s')
         | (Inr chunk, s') \<Rightarrow>
             if chunk = [] then (Inr buffer, s')
             else read_headers_loop (buffer @ chunk) s')
      else (Inr buffer, s))"
  by pat_completeness auto
termination
  by (relation "measure (\<lambda>(buffer, s). rx_size (rx s))")
     (auto dest: sock_recv_rx_size_less [OF sym])

declare read_headers_loop.simps [simp del]

definition read_http_response_headers :: "sock \<Rightarrow> (exn + pystr) \<times> sock" where
  "read_http_response_headers s =
     (case read_headers_loop [] s of
        (Inl e, s') \<Rightarrow> (Inl e, s')
      | (Inr buffer, s') \<Rightarrow> (Inr (decode_replace buffer), s'))"

definition send_websocket_message :: "pystr \<Rightarrow> sock \<Rightarrow> (exn + unit) \<times> sock" where
  "send_websocket_message txt s =
     (case encode_utf8 txt of
        None \<Rightarrow> (Inl UnicodeEncodeError, s)
      | Some payload \<Rightarrow> send_websocket_frame 1 payload True s)"

lemma recv_exact_loop_rx_size:
  "recv_exact_loop nbytes data s = (res, s') \<Longrightarrow>
   rx_size (rx s') \<le> rx_size (rx s)
   \<and> (length data < nbytes \<longrightarrow> \<not> isl res \<longrightarrow> rx_size (rx s') < rx_size (rx s))"
proof (induction nbytes data s arbitrary: res s' rule: recv_exact_loop.induct)
  case (1 nbytes data s)
  show ?case
  proof (cases "length data < nbytes")
    case False
    with "1.prems" show ?thesis by (simp add: recv_exact_loop.simps [of nbytes data s])
  next
    case True
    obtain r s1 where rv: "sock_recv (nbytes - length data) s = (r, s1)"
      by (cases "sock_recv (nbytes - length data) s")
    show ?thesis
    proof (cases r)
      case (Inl e)
      with True rv "1.prems" have "res = Inl e" and "s' = s1"
        by (simp_all add: recv_exact_loop.simps [of nbytes data s])
      with rv show ?thesis using sock_recv_rx_size [of _ s r s1] by simp
    next
      case (Inr chunk)
      show ?thesis
      proof (cases "chunk = []")
        case empty: True
        with True rv Inr "1.prems" have "isl res" and "s' = s1"
          by (auto simp: recv_exact_loop.simps [of nbytes data s])
        with rv show ?thesis using sock_recv_rx_size [of _ s r s1] by simp
      next
        case False
        with True rv Inr "1.prems"
        have "recv_exact_loop nbytes (data @ chunk) s1 = (res, s')"
          by (simp add: recv_exact_loop.simps [of nbytes data s])
        with "1.IH" [OF True rv [symmetric] Inr False]
        have "rx_size (rx s') \<le> rx_size (rx s1)" by blast
        moreover from rv Inr False have "rx_size (rx s1) < rx_size (rx s)"
          using sock_recv_rx_size_less by blast
        ultimately show ?thesis by simp
      qed
    qed
  qed
qed

lemma recv_exact_rx_size:
  "recv_exact n s = (res, s') \<Longrightarrow> rx_size (rx s') \<le> rx_size (rx s)"
  using recv_exact_loop_rx_size [of n "[]" s res s'] by (simp add: recv_exact_def)

lemma recv_exact_rx_size_less:
  "recv_exact n s = (Inr x, s') \<Longrightarrow> 0 < n \<Longrightarrow> rx_size (rx s') < rx_size (rx s)"
  using recv_exact_loop_rx_size [of n "[]" s "Inr x" s'] by (simp add: recv_exact_def)

lemma recv_frame_header_rx_size:
  assumes "recv_frame_header s = (Inr x, s')"
  shows "rx_size (rx s') < rx_size (rx s)"
proof -
  from assms obtain header s1 where r1: "recv_exact 2 s = (Inr header, s1)"
    by (auto simp: recv_frame_header_def split: prod.splits sum.splits)
  then have lt: "rx_size (rx s1) < rx_size (rx s)" by (rule recv_exact_rx_size_less) simp
  from assms r1 have "s' = s1 \<or> (\<exists>n ext. recv_exact n s1 = (Inr ext, s'))"
    by (auto simp: recv_frame_header_def Let_def split: prod.splits sum.splits if_splits)
  with lt show ?thesis using recv_exact_rx_size [of _ s1 _ s'] by fastforce
qed

lemma recv_frame_rx_size:
  assumes "recv_frame s = (Inr x, s')"
  shows "rx_size (rx s') < rx_size (rx s)"
proof -
  from assms obtain h s1 where r1: "recv_frame_header s = (Inr h, s1)"
    by (auto simp: recv_frame_def split: prod.splits sum.splits)
  then have lt: "rx_size (rx s1) < rx_size (rx s)" by (rule recv_frame_header_rx_size)
  from assms r1 obtain k s2 where "s2 = s1 \<or> (\<exists>n. recv_exact n s1 = (Inr k, s2))"
    and "s' = s2 \<or> (\<exists>n p. recv_exact n s2 = (Inr p, s'))"
    by (auto simp: recv_frame_def split: prod.splits sum.splits if_splits)
  then have "rx_size (rx s') \<le> rx_size (rx s1)"
    using recv_exact_rx_size [of _ s1 _ s2] recv_exact_rx_size [of _ s2 _ s'] by fastforce
  with lt show ?thesis by simp
qed

lemma sock_sendall_rx: "sock_sendall data s = (res, s') \<Longrightarrow> rx s' = rx s"
  by (auto simp: sock_sendall_def split: list.splits if_splits)

lemma send_websocket_frame_rx:
  "send_websocket_frame opcode payload m s = (res, s') \<Longrightarrow> rx s' = rx s"
  by (auto simp: send_websocket_frame_def os_urandom_def dest!: sock_sendall_rx
      split: sum.splits if_splits)

text \<open>
  The receive loop of \<open>_stream_websocket\<close> with its \<open>try\<close> and \<open>finally\<close> (lines 103 to
  114): what it yields, how it ends, and the socket it leaves.
\<close>

function ws_loop :: "'f pyrt \<Rightarrow> nat option \<Rightarrow> sock \<Rightarrow> 'f AgUIMessage list \<times> outcome \<times> sock" where
  "ws_loop rt demand s =
     (case recv_frame s of
        (Inl e, s1) \<Rightarrow> ([], Raised e, sock_close s1)
      | (Inr (opcode, payload), s1) \<Rightarrow>
          if opcode = 1 then
            (let msg = normalize_message rt (decode_replace payload)
             in case at_yield demand of
                  None \<Rightarrow> ([msg], Closed, sock_close s1)
                | Some demand' \<Rightarrow>
                    (case ws_loop rt demand' s1 of
                       (msgs, out, s2) \<Rightarrow> (msg # msgs, out, s2)))
          else if opcode = 8 then ([], Exhausted, sock_close s1)
          else if opcode = 9 then
            (case send_websocket_frame 10 payload True s1 of
               (Inl e, s2) \<Rightarrow> ([], Raised e, sock_close s2)
             | (Inr u, s2) \<Rightarrow> ws_loop rt demand s2)
          else ws_loop rt demand s1)"
  by pat_completeness auto
termination
  by (relation "measure (\<lambda>(rt, demand, s). rx_size (rx s))")
     (auto dest!: recv_frame_rx_size [OF sym] send_websocket_frame_rx [OF sym])

declare ws_loop.simps [simp del]

text \<open>
  The result of \<open>urlparse\<close>, which is where the model starts: the fields the client reads.
\<close>

record parsed_url =
  scheme :: pystr
  hostname :: "pystr option"
  port :: "nat option"
  path :: pystr
  query :: pystr
  geturl :: pystr

text \<open>
  What the network does: whether \<open>socket.create_connection\<close> and the TLS wrapping raise,
  the socket a connection gives, and what \<open>urlopen\<close> returns or raises.
\<close>

record env =
  connect_fault :: bool
  tls_fault :: bool
  peer :: sock
  urlopen_result :: "exn + http_response"

text \<open>
  One run of a stream: what was yielded and how it ended, and what it did to the network:
  the request \<open>urlopen\<close> was called with, the address dialled, and the socket, if one was
  created, as the run leaves it.
\<close>

record 'f stream_result =
  yielded :: "'f AgUIMessage list"
  outcome :: outcome
  http_request :: "(pystr \<times> bytes) option"
  dialed :: "(pystr \<times> nat) option"
  conn :: "sock option"

definition stream_http :: "'f pyrt \<Rightarrow> pystr \<Rightarrow> pystr \<Rightarrow> nat option \<Rightarrow> env \<Rightarrow> 'f stream_result" where
  "stream_http rt url question demand ev =
     (case encode_utf8 (json_dumps rt False default_separators
                          (JObject [(str ''question'', JString question)])) of
        None \<Rightarrow>
          \<lparr>yielded = [], outcome = Raised UnicodeEncodeError, http_request = None,
           dialed = None, conn = None\<rparr>
      | Some payload \<Rightarrow>
          (case urlopen_result ev of
             Inl e \<Rightarrow>
               \<lparr>yielded = [], outcome = Raised e, http_request = Some (url, payload),
                dialed = None, conn = None\<rparr>
           | Inr resp \<Rightarrow>
               (case http_lines rt demand (resp_fault resp) (resp_lines resp) of
                  (msgs, out) \<Rightarrow>
                    \<lparr>yielded = msgs, outcome = out, http_request = Some (url, payload),
                     dialed = None, conn = None\<rparr>)))"

definition handshake_request :: "pystr \<Rightarrow> pystr \<Rightarrow> pystr \<Rightarrow> pystr" where
  "handshake_request target host key =
     str ''GET '' @ target @ str '' HTTP/1.1'' @ crlf
     @ str ''Host: '' @ host @ crlf
     @ str ''Upgrade: websocket'' @ crlf
     @ str ''Connection: Upgrade'' @ crlf
     @ str ''Sec-WebSocket-Key: '' @ key @ crlf
     @ str ''Sec-WebSocket-Version: 13'' @ crlf @ crlf"

text \<open>A run that ends by raising \<open>e\<close> before anything was yielded.\<close>

definition ws_raised :: "exn \<Rightarrow> pystr \<times> nat \<Rightarrow> sock option \<Rightarrow> 'f stream_result" where
  "ws_raised e addr c =
     \<lparr>yielded = [], outcome = Raised e, http_request = None, dialed = Some addr, conn = c\<rparr>"

text \<open>
  \<open>_stream_websocket\<close> (lines 75 to 114). The socket of the result is the one the run
  leaves, with the \<open>close\<close> calls the client itself made on it: an exception raised before
  the \<open>try\<close> of line 103 passes through no \<open>finally\<close>, and only the failed check of the
  status line is preceded by a \<open>close\<close> of its own (line 99).
\<close>

definition stream_websocket ::"'f pyrt \<Rightarrow> parsed_url \<Rightarrow> pystr \<Rightarrow> nat option \<Rightarrow> env \<Rightarrow> 'f stream_result" where
  "stream_websocket rt parsed question demand ev =
     (let host = (case hostname parsed of None \<Rightarrow> [] | Some h \<Rightarrow> h);
          default_port = (if scheme parsed = str ''wss'' then 443 else 80);
          prt = (case port parsed of
                   None \<Rightarrow> default_port
                 | Some p \<Rightarrow> if p = 0 then default_port else p);
          path0 = (if path parsed = [] then str ''/'' else path parsed);
          target = (if query parsed \<noteq> [] then path0 @ str ''?'' @ query parsed else path0);
          addr = (host, prt)
      in if connect_fault ev then ws_raised OSError addr None
         else if scheme parsed = str ''wss'' \<and> tls_fault ev
         then ws_raised OSError addr (Some (peer ev))
         else
           (case os_urandom 16 (peer ev) of
              (rand, s1) \<Rightarrow>
                (case encode_utf8 (handshake_request target host (b64encode rand)) of
                   None \<Rightarrow> ws_raised UnicodeEncodeError addr (Some s1)
                 | Some request \<Rightarrow>
                     (case sock_sendall request s1 of
                        (Inl e, s2) \<Rightarrow> ws_raised e addr (Some s2)
                      | (Inr u, s2) \<Rightarrow>
                          (case read_http_response_headers s2 of
                             (Inl e, s3) \<Rightarrow> ws_raised e addr (Some s3)
                           | (Inr response_headers, s3) \<Rightarrow>
                               if \<not> py_in (str ''101'') (split_first crlf response_headers)
                               then ws_raised (ConnectionError (str ''WebSocket upgrade failed''))
                                      addr (Some (sock_close s3))
                               else
                                 (case send_websocket_message
                                         (json_dumps rt True default_separators
                                            (JObject [(str ''question'', JString question)])) s3 of
                                    (Inl e, s4) \<Rightarrow> ws_raised e addr (Some s4)
                                  | (Inr u', s4) \<Rightarrow>
                                      (case ws_loop rt demand s4 of
                                         (msgs, out, s5) \<Rightarrow>
                                           \<lparr>yielded = msgs, outcome = out,
                                            http_request = None, dialed = Some addr,
                                            conn = Some s5\<rparr>)))))))"

section \<open>The client facade\<close>

text \<open>
  \<open>AgUIClient.stream\<close>, from the parsed server URL on. The generator is started: its
  caller asks for at least the first message.
\<close>

definition stream :: "'f pyrt \<Rightarrow> parsed_url \<Rightarrow> pystr \<Rightarrow> nat option \<Rightarrow> env \<Rightarrow> 'f stream_result" where
  "stream rt parsed question demand ev =
     (if scheme parsed = str ''ws'' \<or> scheme parsed = str ''wss''
      then stream_websocket rt parsed question demand ev
      else if scheme parsed = str ''http'' \<or> scheme parsed = str ''https''
      then stream_http rt (geturl parsed) question demand ev
      else \<lparr>yielded = [],
            outcome = Raised (ValueError (str ''Unsupported AG_UI_SERVER scheme: '' @ scheme parsed)),
            http_request = None, dialed = None, conn = None\<rparr>)"

section \<open>The normalizer under the limits of the interpreter\<close>

text \<open>
  \<open>json_loads\<close> reads any text. The interpreter does not: the scanner of the \<open>json\<close>
  module raises \<open>RecursionError\<close> when arrays and objects are nested deeper than the
  interpreter allows, and \<open>int\<close>, which converts an integer literal, raises \<open>ValueError\<close>
  when the literal has more digits than \<open>sys.get_int_max_str_digits()\<close>. Neither is a
  \<open>JSONDecodeError\<close>, the one exception line 189 catches.
\<close>

text \<open>
  What \<open>json.loads\<close> raises: \<open>JSONDecodeError\<close>, the \<open>ValueError\<close> of the digit limit,
  \<open>RecursionError\<close>.
\<close>

datatype loads_exn = JSONDecodeError | IntMaxStrDigitsError | RecursionError

text \<open>
  The two limits as \<open>json.loads\<close> finds them when \<open>_normalize_message\<close> calls it: the
  digit limit (\<open>0\<close> for none, otherwise 640 at least; 4300 unless it was set) and the number
  of arrays and objects the scanner can have open at once.
\<close>

record limits =
  int_max_str_digits :: nat
  recursion_left :: nat

text \<open>
  A number, read as \<open>scan_number\<close> reads it. A literal with no fraction and no exponent is
  converted by \<open>int\<close>, which counts its digits first.
\<close>

definition read_number :: "limits \<Rightarrow> 'f pyrt \<Rightarrow> pystr \<Rightarrow> (loads_exn + 'f json \<times> pystr) option" where
  "read_number lim rt s =
     (let (sign, s1) = (case s of
                          [] \<Rightarrow> ([], s)
                        | c # r \<Rightarrow> if c = 45 then ([c], r) else ([], s))
      in case scan_integer s1 of
           None \<Rightarrow> None
         | Some (digits, s2) \<Rightarrow>
             (let (frac, s3) = scan_frac s2;
                  (exp, s4) = scan_exp s3
              in if frac = [] \<and> exp = [] then
                   if 0 < int_max_str_digits lim \<and> int_max_str_digits lim < length digits
                   then Some (Inl IntMaxStrDigitsError)
                   else Some (Inr (JInt (if sign = [] then int (digits_value digits)
                                         else - int (digits_value digits)), s4))
                 else Some (Inr (JFloat (float_of_str rt (sign @ digits @ frac @ exp)), s4))))"

text \<open>
  The reader of \<open>parse_value\<close>, \<open>parse_elements\<close> and \<open>parse_members\<close> with the limits,
  and \<open>JSONDecodeError\<close> where those give \<open>None\<close>. The scanner enters an array or an
  object by a recursive call, which the interpreter checks before anything of the array or
  object is read. The guards on the lengths are those of the reader above;
  \<open>read_value_length\<close> shows that they always hold.
\<close>

function read_value :: "limits \<Rightarrow> 'f pyrt \<Rightarrow> nat \<Rightarrow> pystr \<Rightarrow> loads_exn + 'f json \<times> pystr"
  and read_elements ::
    "limits \<Rightarrow> 'f pyrt \<Rightarrow> nat \<Rightarrow> 'f json list \<Rightarrow> pystr \<Rightarrow> loads_exn + 'f json list \<times> pystr"
  and read_members ::
    "limits \<Rightarrow> 'f pyrt \<Rightarrow> nat \<Rightarrow> (pystr \<times> 'f json) list \<Rightarrow> pystr
       \<Rightarrow> loads_exn + (pystr \<times> 'f json) list \<times> pystr" where
  "read_value lim rt depth s =
     (case s of
        [] \<Rightarrow> Inl JSONDecodeError
      | c # r \<Rightarrow>
          if c = 34 then
            (case scanstring r of
               None \<Rightarrow> Inl JSONDecodeError
             | Some (x, rest) \<Rightarrow> Inr (JString x, rest))
          else if c = 123 then
            (case depth of
               0 \<Rightarrow> Inl RecursionError
             | Suc depth' \<Rightarrow>
                 (case skip_ws r of
                    [] \<Rightarrow> Inl JSONDecodeError
                  | d # r' \<Rightarrow>
                      if d = 125 then Inr (JObject [], r')
                      else if d = 34 then
                        (case read_members lim rt depth' [] r' of
                           Inl e \<Rightarrow> Inl e
                         | Inr (kvs, rest) \<Rightarrow> Inr (JObject kvs, rest))
                      else Inl JSONDecodeError))
          else if c = 91 then
            (case depth of
               0 \<Rightarrow> Inl RecursionError
             | Suc depth' \<Rightarrow>
                 (case skip_ws r of
                    [] \<Rightarrow> Inl JSONDecodeError
                  | d # r' \<Rightarrow>
                      if d = 93 then Inr (JArray [], r')
                      else
                        (case read_elements lim rt depth' [] (d # r') of
                           Inl e \<Rightarrow> Inl e
                         | Inr (xs, rest) \<Rightarrow> Inr (JArray xs, rest))))
          else if startswith s (str ''null'') then Inr (JNull, drop 4 s)
          else if startswith s (str ''true'') then Inr (JBool True, drop 4 s)
          else if startswith s (str ''false'') then Inr (JBool False, drop 5 s)
          else
            (case read_number lim rt s of
               Some res \<Rightarrow> res
             | None \<Rightarrow>
                 if startswith s (str ''NaN'')
                 then Inr (JFloat (float_of_str rt (str ''nan'')), drop 3 s)
                 else if startswith s (str ''Infinity'')
                 then Inr (JFloat (float_of_str rt (str ''inf'')), drop 8 s)
                 else if startswith s (str ''-Infinity'')
                 then Inr (JFloat (float_of_str rt (str ''-inf'')), drop 9 s)
                 else Inl JSONDecodeError))"
| "read_elements lim rt depth acc s =
     (case read_value lim rt depth s of
        Inl e \<Rightarrow> Inl e
      | Inr (v, r) \<Rightarrow>
          if length r < length s then
            (case skip_ws r of
               [] \<Rightarrow> Inl JSONDecodeError
             | d # r' \<Rightarrow>
                 if d = 93 then Inr (acc @ [v], r')
                 else if d = 44 then read_elements lim rt depth (acc @ [v]) (skip_ws r')
                 else Inl JSONDecodeError)
          else Inl JSONDecodeError)"
| "read_members lim rt depth acc s =
     (case scanstring s of
        None \<Rightarrow> Inl JSONDecodeError
      | Some (key, r) \<Rightarrow>
          (case skip_ws r of
             [] \<Rightarrow> Inl JSONDecodeError
           | c # r1 \<Rightarrow>
               if c = 58 then
                 (case read_value lim rt depth (skip_ws r1) of
                    Inl e \<Rightarrow> Inl e
                  | Inr (v, r2) \<Rightarrow>
                      if length r2 < length (skip_ws r1) then
                        (case skip_ws r2 of
                           [] \<Rightarrow> Inl JSONDecodeError
                         | d # r3 \<Rightarrow>
                             if d = 125 then Inr (dict_set acc key v, r3)
                             else if d = 44 then
                               (case skip_ws r3 of
                                  [] \<Rightarrow> Inl JSONDecodeError
                                | q # r4 \<Rightarrow>
                                    if q = 34 then read_members lim rt depth (dict_set acc key v) r4
                                    else Inl JSONDecodeError)
                             else Inl JSONDecodeError)
                      else Inl JSONDecodeError)
               else Inl JSONDecodeError))"
  by pat_completeness auto
termination
  apply (relation "measure (\<lambda>x. case x of
            Inl (lim, rt, depth, s) \<Rightarrow> 2 * length s
          | Inr (Inl (lim, rt, depth, acc, s)) \<Rightarrow> 2 * length s + 1
          | Inr (Inr (lim, rt, depth, acc, s)) \<Rightarrow> 2 * length s + 1)")
  apply simp
  subgoal for lim rt depth s c r depth' d r' using skip_ws_Cons_length [of r d r'] by simp
  subgoal for lim rt depth s c r depth' d r' using skip_ws_Cons_length [of r d r'] by simp
  apply simp
  subgoal for lim rt depth acc s x v r d r'
    using length_skip_ws [of r'] skip_ws_Cons_length [of r d r'] by simp
  subgoal for lim rt depth acc s x key r c r1
    using scanstring_length [of s key r] skip_ws_Cons_length [of r c r1] length_skip_ws [of r1]
    by simp
  subgoal for lim rt depth acc s x key r c r1 y v r2 d r3 q r4
    using scanstring_length [of s key r] skip_ws_Cons_length [of r c r1] length_skip_ws [of r1]
      skip_ws_Cons_length [of r2 d r3] skip_ws_Cons_length [of r3 q r4]
    by simp
  done

declare read_value.simps [simp del] read_elements.simps [simp del] read_members.simps [simp del]

text \<open>\<open>json.loads\<close>, as the interpreter runs it.\<close>

definition json_loads_limited :: "limits \<Rightarrow> 'f pyrt \<Rightarrow> pystr \<Rightarrow> loads_exn + 'f json" where
  "json_loads_limited lim rt s =
     (case read_value lim rt (recursion_left lim) (skip_ws s) of
        Inl e \<Rightarrow> Inl e
      | Inr (v, rest) \<Rightarrow> if skip_ws rest = [] then Inr v else Inl JSONDecodeError)"

text \<open>
  \<open>_normalize_message\<close> (lines 186 to 213), as the interpreter runs it: of what
  \<open>json.loads\<close> raises, line 189 catches \<open>JSONDecodeError\<close> and nothing else.
\<close>

definition normalize_message_limited ::
  "limits \<Rightarrow> 'f pyrt \<Rightarrow> pystr \<Rightarrow> loads_exn + 'f AgUIMessage" where
  "normalize_message_limited lim rt raw_text =
     (case json_loads_limited lim rt raw_text of
        Inl JSONDecodeError \<Rightarrow> Inr \<lparr>text = raw_text, raw = JString raw_text\<rparr>
      | Inl e \<Rightarrow> Inl e
      | Inr parsed \<Rightarrow>
          (case parsed of
             JObject d \<Rightarrow>
               (let prefix = message_prefix rt d;
                    body = message_body rt d
                in Inr \<lparr>text = (if truthy rt prefix
                                then py_str rt prefix @ str '': '' @ py_str rt body
                                else py_str rt body),
                        raw = parsed\<rparr>)
           | _ \<Rightarrow> Inr \<lparr>text = py_str rt parsed, raw = parsed\<rparr>))"

section \<open>Facts about the frame codec\<close>

text \<open>
  The bytes a socket delivers before its stream ends or faults, whatever the chunks they
  arrive in. An empty chunk is what \<open>recv\<close> returns for a closed stream, so it ends them.
\<close>

fun rx_bytes :: "rx_event list \<Rightarrow> bytes" where
  "rx_bytes [] = []"
| "rx_bytes (RxFault # rest) = []"
| "rx_bytes (RxData chunk # rest) = (if chunk = [] then [] else chunk @ rx_bytes rest)"

text \<open>
  The three forms of the length field, what each can hold and the bytes it adds to the
  two-byte header; \<open>header_form\<close> reads the form off a header as the decoder does.
\<close>

datatype length_form = Len7 | Len16 | Len64

fun form_capacity :: "length_form \<Rightarrow> nat" where
  "form_capacity Len7 = 126"
| "form_capacity Len16 = 2 ^ 16"
| "form_capacity Len64 = 2 ^ 64"

fun form_extra_bytes :: "length_form \<Rightarrow> nat" where
  "form_extra_bytes Len7 = 0"
| "form_extra_bytes Len16 = 2"
| "form_extra_bytes Len64 = 8"

definition header_form :: "bytes \<Rightarrow> length_form" where
  "header_form h =
     (let n = unat (h ! 1) AND 127
      in if n = 126 then Len16 else if n = 127 then Len64 else Len7)"

text \<open>A socket whose peer delivers the given chunks and then closes; every send succeeds.\<close>

definition scripted_sock :: "bytes list \<Rightarrow> sock" where
  "scripted_sock chunks =
     \<lparr>rx = map RxData chunks, tx_faults = [], tx = [], close_calls = 0,
      entropy = (\<lambda>i. of_nat i), entropy_used = 0\<rparr>"

subsection \<open>Masking and big-endian integers\<close>

lemma length_xor_mask: "length (xor_mask k p) = length p"
  by (simp add: xor_mask_def)

lemma nth_xor_mask: "i < length p \<Longrightarrow> xor_mask k p ! i = p ! i XOR k ! (i mod 4)"
  by (simp add: xor_mask_def nth_enumerate_eq)

lemma xor_mask_involution: "xor_mask k (xor_mask k p) = p"
  by (rule nth_equalityI) (simp_all add: length_xor_mask nth_xor_mask xor.assoc)

lemma int_from_bytes_snoc: "int_from_bytes (bs @ [b]) = 256 * int_from_bytes bs + unat b"
  by (simp add: int_from_bytes_def)

lemma length_big_endian: "length (big_endian len n) = len"
  by (induction len arbitrary: n) auto

lemma int_from_bytes_big_endian: "n < 256 ^ len \<Longrightarrow> int_from_bytes (big_endian len n) = n"
proof (induction len arbitrary: n)
  case 0
  then show ?case by (simp add: int_from_bytes_def)
next
  case (Suc len)
  then have "n div 256 < 256 ^ len" by (simp add: less_mult_imp_div_less mult.commute)
  then have "int_from_bytes (big_endian len (n div 256)) = n div 256" by (rule Suc.IH)
  moreover have "unat (of_nat (n mod 256) :: byte) = n mod 256"
    by (simp add: unat_of_nat)
  ultimately show ?case by (simp add: int_from_bytes_snoc)
qed

lemma big_endian_2: "big_endian 2 n = [of_nat (n div 256 mod 256), of_nat (n mod 256)]"
  by (simp add: numeral_2_eq_2)

subsection \<open>Bit operations on the header bytes\<close>

lemma nat_and_or_distrib: "((a::nat) OR b) AND c = (a AND c) OR (b AND c)"
  by (auto simp: bit_eq_iff bit_simps)

lemma and127: "x < 128 \<Longrightarrow> (x::nat) AND 127 = x"
proof -
  assume "x < 128"
  have "x AND 127 = take_bit 7 x" by (simp add: take_bit_eq_mask mask_eq_exp_minus_1)
  also have "\<dots> = x" using \<open>x < 128\<close> by (simp add: take_bit_nat_eq_self)
  finally show ?thesis .
qed

lemma and128: "x < 128 \<Longrightarrow> (x::nat) AND 128 = 0"
proof -
  assume "x < 128"
  then have "\<not> bit x 7" by (simp add: bit_nat_def)
  then show ?thesis using and_exp_eq_0_iff_not_bit [of x 7] by simp
qed

lemma or128_and127: "x < 128 \<Longrightarrow> ((128::nat) OR x) AND 127 = x"
  by (simp add: nat_and_or_distrib and127)

lemma or0_and127: "x < 128 \<Longrightarrow> ((0::nat) OR x) AND 127 = x"
  by (simp add: and127)

lemma or128_and128: "x < 128 \<Longrightarrow> ((128::nat) OR x) AND 128 = 128"
  by (simp add: nat_and_or_distrib and128)

lemma or128_eq: "x < 128 \<Longrightarrow> (128::nat) OR x = 128 + x"
proof -
  assume x: "x < 128"
  have "x AND 128 = 0" using x by (rule and128)
  then have "128 + x = 128 OR x" by (intro disjunctive_add_eq_or) (simp add: and.commute)
  then show ?thesis by simp
qed

lemma or128_lt: "x < 128 \<Longrightarrow> ((128::nat) OR x) < 256"
  by (simp add: or128_eq)

lemma and15_lt: "(x::nat) AND 15 < 16"
proof -
  have "x AND 15 = take_bit 4 x" by (simp add: take_bit_eq_mask mask_eq_exp_minus_1)
  then show ?thesis by (simp add: take_bit_eq_mod)
qed

lemma or128_and15: "((128::nat) OR (x AND 15)) AND 15 = x AND 15"
  by (simp add: nat_and_or_distrib and.assoc)

lemma first_byte_lt: "(128::nat) OR (x AND 15) < 256"
proof -
  have "x AND 15 < 128" using and15_lt [of x] by simp
  then show ?thesis using and15_lt [of x] by (simp add: or128_eq)
qed

subsection \<open>Reading exactly \<open>n\<close> bytes\<close>

lemma sock_recv_bytes:
  assumes "0 < n" and "rx_bytes (rx s) \<noteq> []"
  shows "\<exists>chunk r. sock_recv n s = (Inr chunk, s\<lparr>rx := r\<rparr>) \<and> chunk \<noteq> []
           \<and> length chunk \<le> n \<and> rx_bytes (rx s) = chunk @ rx_bytes r"
proof (cases "rx s")
  case Nil
  with assms show ?thesis by simp
next
  case (Cons ev rest)
  show ?thesis
  proof (cases ev)
    case RxFault
    with Cons assms show ?thesis by simp
  next
    case (RxData chunk)
    with Cons assms have ne: "chunk \<noteq> []" by (auto split: if_splits)
    show ?thesis
    proof (cases "length chunk \<le> n")
      case True
      with Cons RxData ne have
        "sock_recv n s = (Inr chunk, s\<lparr>rx := rest\<rparr>)" "length chunk \<le> n"
        "rx_bytes (rx s) = chunk @ rx_bytes rest"
        by (simp_all add: sock_recv_def)
      with ne show ?thesis by blast
    next
      case False
      with Cons RxData ne assms(1) have
        "sock_recv n s = (Inr (take n chunk), s\<lparr>rx := RxData (drop n chunk) # rest\<rparr>)"
        "take n chunk \<noteq> []" "length (take n chunk) \<le> n"
        "rx_bytes (rx s) = take n chunk @ rx_bytes (RxData (drop n chunk) # rest)"
        by (simp_all add: sock_recv_def)
      then show ?thesis by blast
    qed
  qed
qed

lemma recv_exact_loop_bytes:
  "length data \<le> nbytes \<Longrightarrow> nbytes - length data \<le> length (rx_bytes (rx s)) \<Longrightarrow>
   \<exists>r. recv_exact_loop nbytes data s
           = (Inr (data @ take (nbytes - length data) (rx_bytes (rx s))), s\<lparr>rx := r\<rparr>)
      \<and> rx_bytes r = drop (nbytes - length data) (rx_bytes (rx s))"
proof (induction nbytes data s rule: recv_exact_loop.induct)
  case (1 nbytes data s)
  show ?case
  proof (cases "length data < nbytes")
    case False
    with "1.prems" have "recv_exact_loop nbytes data s
        = (Inr (data @ take (nbytes - length data) (rx_bytes (rx s))), s\<lparr>rx := rx s\<rparr>)"
      and "rx_bytes (rx s) = drop (nbytes - length data) (rx_bytes (rx s))"
      by (simp_all add: recv_exact_loop.simps [of nbytes data s])
    then show ?thesis by blast
  next
    case True
    let ?n = "nbytes - length data"
    from True "1.prems" have "0 < ?n" and "rx_bytes (rx s) \<noteq> []" by auto
    then obtain chunk r1 where
      r: "sock_recv ?n s = (Inr chunk, s\<lparr>rx := r1\<rparr>)" and ne: "chunk \<noteq> []"
      and le: "length chunk \<le> ?n" and split: "rx_bytes (rx s) = chunk @ rx_bytes r1"
      using sock_recv_bytes by blast
    let ?s1 = "s\<lparr>rx := r1\<rparr>"
    from le True have "length (data @ chunk) \<le> nbytes" by simp
    moreover from "1.prems"(2) split le
    have "nbytes - length (data @ chunk) \<le> length (rx_bytes (rx ?s1))" by simp
    ultimately obtain r' where
      rec: "recv_exact_loop nbytes (data @ chunk) ?s1
         = (Inr ((data @ chunk) @ take (nbytes - length (data @ chunk)) (rx_bytes (rx ?s1))),
            ?s1\<lparr>rx := r'\<rparr>)"
      and rest: "rx_bytes r' = drop (nbytes - length (data @ chunk)) (rx_bytes (rx ?s1))"
      using "1.IH" [OF True r [symmetric] refl ne] by blast
    from True r ne rec
    have "recv_exact_loop nbytes data s
      = (Inr ((data @ chunk) @ take (nbytes - length (data @ chunk)) (rx_bytes r1)),
         s\<lparr>rx := r'\<rparr>)"
      by (simp add: recv_exact_loop.simps [of nbytes data s])
    moreover from le split
    have "(data @ chunk) @ take (nbytes - length (data @ chunk)) (rx_bytes r1)
        = data @ take ?n (rx_bytes (rx s))" by simp
    moreover from le split rest
    have "rx_bytes r' = drop ?n (rx_bytes (rx s))" by simp
    ultimately show ?thesis by auto
  qed
qed

lemma recv_exact_bytes:
  "nbytes \<le> length (rx_bytes (rx s)) \<Longrightarrow>
   \<exists>r. recv_exact nbytes s = (Inr (take nbytes (rx_bytes (rx s))), s\<lparr>rx := r\<rparr>)
      \<and> rx_bytes r = drop nbytes (rx_bytes (rx s))"
  using recv_exact_loop_bytes [of "[]" nbytes s] by (simp add: recv_exact_def)

subsection \<open>The decoder reads what the encoder writes\<close>

lemma unat_byte_of_nat: "n < 256 \<Longrightarrow> unat (of_nat n :: byte) = n"
  by (simp add: unat_of_nat)

lemma second_byte:
  assumes "x < 128"
  shows "unat (of_nat ((if m then 128 else 0) OR x) :: byte) AND 127 = x"
    and "(unat (of_nat ((if m then 128 else 0) OR x) :: byte) AND 128 \<noteq> 0) = m"
proof -
  from assms have "unat (of_nat (128 OR x) :: byte) = 128 OR x"
    by (intro unat_byte_of_nat or128_lt)
  moreover from assms have "unat (of_nat x :: byte) = x"
    by (intro unat_byte_of_nat) simp
  ultimately show "unat (of_nat ((if m then 128 else 0) OR x) :: byte) AND 127 = x"
    and "(unat (of_nat ((if m then 128 else 0) OR x) :: byte) AND 128 \<noteq> 0) = m"
    using assms by (simp_all add: or128_and127 or128_and128 and127 and128)
qed

lemma first_byte:
  "unat (of_nat (128 OR (opcode AND 15)) :: byte) AND 15 = opcode AND 15"
  by (simp add: unat_byte_of_nat first_byte_lt or128_and15)

lemma frame_header_cases:
  assumes "frame_header opcode len m = Inr h"
  obtains
    (short) b0 b1 where "len < 126" "h = [b0, b1]"
      "unat b0 AND 15 = opcode AND 15" "(unat b1 AND 128 \<noteq> 0) = m" "unat b1 AND 127 = len"
  | (medium) b0 b1 where "126 \<le> len" "len < 2 ^ 16" "h = [b0, b1] @ big_endian 2 len"
      "unat b0 AND 15 = opcode AND 15" "(unat b1 AND 128 \<noteq> 0) = m" "unat b1 AND 127 = 126"
  | (long) b0 b1 where "2 ^ 16 \<le> len" "len < 2 ^ 64" "h = [b0, b1] @ big_endian 8 len"
      "unat b0 AND 15 = opcode AND 15" "(unat b1 AND 128 \<noteq> 0) = m" "unat b1 AND 127 = 127"
proof -
  consider "len < 126" | "126 \<le> len" "len < 2 ^ 16" | "2 ^ 16 \<le> len" by linarith
  then show thesis
  proof cases
    case 1
    then have "len < 128" by simp
    from 1 assms
    have "h = [of_nat (128 OR (opcode AND 15)), of_nat ((if m then 128 else 0) OR len)]"
      by (simp add: frame_header_def Let_def)
    with 1 show thesis
      using first_byte [of opcode] second_byte [OF \<open>len < 128\<close>, of m]
      by (intro short) auto
  next
    case 2
    with assms
    have "h = [of_nat (128 OR (opcode AND 15)), of_nat ((if m then 128 else 0) OR 126)]
               @ big_endian 2 len"
      by (simp add: frame_header_def Let_def int_to_bytes_def)
    with 2 show thesis
      using first_byte [of opcode] second_byte [of 126 m]
      by (intro medium) auto
  next
    case 3
    then have "\<not> len < 126" and "\<not> len < 2 ^ 16" by simp_all
    with assms
    have "len < 2 ^ 64"
      and "h = [of_nat (128 OR (opcode AND 15)), of_nat ((if m then 128 else 0) OR 127)]
               @ big_endian 8 len"
      by (simp_all add: frame_header_def Let_def int_to_bytes_def split: if_splits)
    with 3 show thesis
      using first_byte [of opcode] second_byte [of 127 m]
      by (intro long) auto
  qed
qed

lemma recv_frame_header_bytes:
  assumes h: "frame_header opcode len m = Inr h"
    and rx: "rx_bytes (rx s) = h @ rest"
  shows "\<exists>r. recv_frame_header s = (Inr (opcode AND 15, m, len), s\<lparr>rx := r\<rparr>)
           \<and> rx_bytes r = rest"
proof -
  from h have "2 \<le> length h" by (rule frame_header_cases) simp_all
  with rx have "2 \<le> length (rx_bytes (rx s))" by simp
  then obtain r1 where
    r1: "recv_exact 2 s = (Inr (take 2 (rx_bytes (rx s))), s\<lparr>rx := r1\<rparr>)"
    and rx1: "rx_bytes r1 = drop 2 (rx_bytes (rx s))"
    using recv_exact_bytes by blast
  from h show ?thesis
  proof (cases rule: frame_header_cases)
    case short
    with r1 rx rx1 have
      "recv_frame_header s = (Inr (opcode AND 15, m, len), s\<lparr>rx := r1\<rparr>)"
      and "rx_bytes r1 = rest"
      by (simp_all add: recv_frame_header_def Let_def)
    then show ?thesis by blast
  next
    case medium
    let ?s1 = "s\<lparr>rx := r1\<rparr>"
    from medium rx rx1 have rx1': "rx_bytes (rx ?s1) = big_endian 2 len @ rest" by simp
    then have "2 \<le> length (rx_bytes (rx ?s1))" by (simp add: length_big_endian)
    then obtain r2 where
      r2: "recv_exact 2 ?s1 = (Inr (take 2 (rx_bytes (rx ?s1))), ?s1\<lparr>rx := r2\<rparr>)"
      and rx2: "rx_bytes r2 = drop 2 (rx_bytes (rx ?s1))"
      using recv_exact_bytes by blast
    from rx1' have t: "take 2 (rx_bytes (rx ?s1)) = big_endian 2 len"
      and d: "drop 2 (rx_bytes (rx ?s1)) = rest"
      by (simp_all add: length_big_endian)
    from medium have "int_from_bytes (big_endian 2 len) = len"
      by (intro int_from_bytes_big_endian) simp
    with medium(3-6) r1 rx r2 rx2 t d have
      "recv_frame_header s = (Inr (opcode AND 15, m, len), s\<lparr>rx := r2\<rparr>)"
      and "rx_bytes r2 = rest"
      by (simp_all add: recv_frame_header_def Let_def)
    then show ?thesis by blast
  next
    case long
    let ?s1 = "s\<lparr>rx := r1\<rparr>"
    from long rx rx1 have rx1': "rx_bytes (rx ?s1) = big_endian 8 len @ rest" by simp
    then have "8 \<le> length (rx_bytes (rx ?s1))" by (simp add: length_big_endian)
    then obtain r2 where
      r2: "recv_exact 8 ?s1 = (Inr (take 8 (rx_bytes (rx ?s1))), ?s1\<lparr>rx := r2\<rparr>)"
      and rx2: "rx_bytes r2 = drop 8 (rx_bytes (rx ?s1))"
      using recv_exact_bytes by blast
    from rx1' have t: "take 8 (rx_bytes (rx ?s1)) = big_endian 8 len"
      and d: "drop 8 (rx_bytes (rx ?s1)) = rest"
      by (simp_all add: length_big_endian)
    from long have "int_from_bytes (big_endian 8 len) = len"
      by (intro int_from_bytes_big_endian) simp
    with long(3-6) r1 rx r2 rx2 t d have
      "recv_frame_header s = (Inr (opcode AND 15, m, len), s\<lparr>rx := r2\<rparr>)"
      and "rx_bytes r2 = rest"
      by (simp_all add: recv_frame_header_def Let_def)
    then show ?thesis by blast
  qed
qed

lemma recv_frame_bytes:
  assumes f: "websocket_frame opcode payload m key = Inr f"
    and k: "m \<Longrightarrow> length key = 4"
    and rx: "rx_bytes (rx s) = f @ rest"
  shows "\<exists>r. recv_frame s = (Inr (opcode AND 15, payload), s\<lparr>rx := r\<rparr>)
           \<and> rx_bytes r = rest"
proof -
  from f obtain h where h: "frame_header opcode (length payload) m = Inr h"
    and f': "f = (if m then h @ key @ xor_mask key payload else h @ payload)"
    by (auto simp: websocket_frame_def split: sum.splits)
  let ?body = "if m then key @ xor_mask key payload else payload"
  from rx f' have "rx_bytes (rx s) = h @ ?body @ rest" by simp
  with h obtain r1 where
    r1: "recv_frame_header s = (Inr (opcode AND 15, m, length payload), s\<lparr>rx := r1\<rparr>)"
    and rx1: "rx_bytes r1 = ?body @ rest"
    using recv_frame_header_bytes by blast
  let ?s1 = "s\<lparr>rx := r1\<rparr>"
  show ?thesis
  proof (cases m)
    case False
    show ?thesis
    proof (cases "payload = []")
      case True
      with False r1 rx1 have "recv_frame s = (Inr (opcode AND 15, payload), ?s1)"
        and "rx_bytes r1 = rest"
        by (simp_all add: recv_frame_def)
      then show ?thesis by blast
    next
      case nonempty: False
      from False rx1 have "length payload \<le> length (rx_bytes (rx ?s1))" by simp
      then obtain r2 where
        r2: "recv_exact (length payload) ?s1
           = (Inr (take (length payload) (rx_bytes (rx ?s1))), ?s1\<lparr>rx := r2\<rparr>)"
        and rx2: "rx_bytes r2 = drop (length payload) (rx_bytes (rx ?s1))"
        using recv_exact_bytes by blast
      with False nonempty r1 rx1
      have "recv_frame s = (Inr (opcode AND 15, payload), s\<lparr>rx := r2\<rparr>)"
        and "rx_bytes r2 = rest"
        by (simp_all add: recv_frame_def)
      then show ?thesis by blast
    qed
  next
    case True
    with k have len: "length key = 4" by simp
    from True rx1 have rx1': "rx_bytes (rx ?s1) = key @ xor_mask key payload @ rest" by simp
    with len have "4 \<le> length (rx_bytes (rx ?s1))" by simp
    then obtain r2 where
      r2: "recv_exact 4 ?s1 = (Inr (take 4 (rx_bytes (rx ?s1))), ?s1\<lparr>rx := r2\<rparr>)"
      and rx2: "rx_bytes r2 = drop 4 (rx_bytes (rx ?s1))"
      using recv_exact_bytes by blast
    let ?s2 = "s\<lparr>rx := r2\<rparr>"
    from rx1' len have k2: "take 4 (rx_bytes (rx ?s1)) = key"
      and rx2': "rx_bytes (rx ?s2) = xor_mask key payload @ rest"
      using rx2 by simp_all
    from r2 k2 have r2': "recv_exact 4 ?s1 = (Inr key, ?s2)" by simp
    show ?thesis
    proof (cases "payload = []")
      case True
      with \<open>m\<close> r1 r2' rx2' have "recv_frame s = (Inr (opcode AND 15, payload), ?s2)"
        and "rx_bytes r2 = rest"
        by (simp_all add: recv_frame_def xor_mask_def)
      then show ?thesis by blast
    next
      case nonempty: False
      from rx2' have "length payload \<le> length (rx_bytes (rx ?s2))"
        by (simp add: length_xor_mask)
      then obtain r3 where
        r3: "recv_exact (length payload) ?s2
           = (Inr (take (length payload) (rx_bytes (rx ?s2))), ?s2\<lparr>rx := r3\<rparr>)"
        and rx3: "rx_bytes r3 = drop (length payload) (rx_bytes (rx ?s2))"
        using recv_exact_bytes by blast
      with \<open>m\<close> nonempty r1 r2' rx2'
      have "recv_frame s = (Inr (opcode AND 15, payload), s\<lparr>rx := r3\<rparr>)"
        and "rx_bytes r3 = rest"
        by (simp_all add: recv_frame_def length_xor_mask xor_mask_involution)
      then show ?thesis by blast
    qed
  qed
qed

section \<open>Facts about the normalizer and the HTTP driver\<close>

text \<open>
  A runtime to run closed examples with: its float type has one element and its \<open>repr\<close> of
  a string only adds quotes. No example below holds a float or takes the \<open>repr\<close> of a string.
\<close>

definition rt0 :: "unit pyrt" where
  "rt0 = \<lparr>float_of_str = (\<lambda>_. ()), float_repr = (\<lambda>_. str ''0.0''),
          float_nonzero = (\<lambda>_. False), float_json = (\<lambda>_. str ''0.0''),
          str_repr = (\<lambda>s. [39] @ s @ [39])\<rparr>"

text \<open>The bytes of an ASCII literal.\<close>

definition ascii_bytes :: "string \<Rightarrow> bytes" where
  "ascii_bytes s = map of_char s"

text \<open>An unsupported server URL, as \<open>urlparse("ftp://host")\<close> gives it.\<close>

definition ftp_host :: parsed_url where
  "ftp_host = \<lparr>scheme = str ''ftp'', hostname = Some (str ''host''), port = None, path = [],
               query = [], geturl = str ''ftp://host''\<rparr>"

lemmas json_eval =
  json_loads_def parse_value.simps parse_members.simps parse_elements.simps scanstring.simps
  skip_ws_def is_ws_def str_def escape_char_def startswith_def scan_number_def
  scan_integer_def scan_frac_def scan_exp_def is_digit_def digits_value_def

lemma json_loads_not_json: "json_loads rt (str ''not json'') = None"
  by (simp add: json_eval)

lemma json_loads_empty: "json_loads rt [] = None"
  by (simp add: json_eval)

lemma json_loads_hello:
  "json_loads rt (str ''{\"text\":\"hello\"}'') = Some (JObject [(str ''text'', JString (str ''hello''))])"
  by (simp add: json_eval)

lemma json_loads_world:
  "json_loads rt (str ''{\"text\":\"world\"}'') = Some (JObject [(str ''text'', JString (str ''world''))])"
  by (simp add: json_eval)

lemma normalize_message_unparsed:
  "json_loads rt s = None \<Longrightarrow> normalize_message rt s = \<lparr>text = s, raw = JString s\<rparr>"
  by (simp add: normalize_message_def)

lemma normalize_text_only:
  "json_loads rt s = Some (JObject [(str ''text'', JString t)]) \<Longrightarrow> t \<noteq> [] \<Longrightarrow>
   normalize_message rt s = \<lparr>text = t, raw = JObject [(str ''text'', JString t)]\<rparr>"
  by (simp add: normalize_message_def message_prefix_def message_body_def dict_get_def py_or_def
      truthy_def py_str_def str_def)

text \<open>
  What the HTTP driver hands to the normalizer for a stripped line, in the words of the
  specification: a leading \<open>data:\<close> and the white space after it are removed.
\<close>

definition data_payload :: "pystr \<Rightarrow> pystr" where
  "data_payload line =
     (if startswith line (str ''data:'') then dropWhile py_isspace (drop 5 line) else line)"

lemma py_strip_no_trailing:
  assumes "s = [] \<or> \<not> py_isspace (last s)"
  shows "py_strip s = dropWhile py_isspace s"
proof (cases "dropWhile py_isspace s = []")
  case True
  have "py_strip s = rev (dropWhile py_isspace (rev []))"
    unfolding py_strip_def True ..
  then have "py_strip s = []" by simp
  then show ?thesis unfolding True .
next
  case False
  then have "s \<noteq> []" by auto
  with assms have "\<not> py_isspace (last s)" by simp
  moreover from False have "last (dropWhile py_isspace s) = last s"
    by (metis last_appendR takeWhile_dropWhile_id)
  ultimately have "\<not> py_isspace (hd (rev (dropWhile py_isspace s)))"
    using False by (simp add: hd_rev)
  with False have "dropWhile py_isspace (rev (dropWhile py_isspace s)) = rev (dropWhile py_isspace s)"
    by (cases "rev (dropWhile py_isspace s)") auto
  then show ?thesis by (simp add: py_strip_def)
qed

lemma py_strip_last: "py_strip s = [] \<or> \<not> py_isspace (last (py_strip s))"
proof (cases "py_strip s = []")
  case True
  then show ?thesis by simp
next
  case False
  let ?t = "dropWhile py_isspace (rev (dropWhile py_isspace s))"
  from False have "?t \<noteq> []" by (simp add: py_strip_def)
  then have "\<not> py_isspace (hd ?t)" by (rule hd_dropWhile)
  with \<open>?t \<noteq> []\<close> show ?thesis by (simp add: py_strip_def last_rev)
qed

lemma drop_last_no_space:
  assumes "s = [] \<or> \<not> py_isspace (last s)"
  shows "drop n s = [] \<or> \<not> py_isspace (last (drop n s))"
  using assms by (cases "drop n s = []") auto

lemma strip_after_prefix:
  "py_strip (drop n (py_strip s)) = dropWhile py_isspace (drop n (py_strip s))"
  by (intro py_strip_no_trailing drop_last_no_space py_strip_last)

lemma http_lines_all:
  "http_lines rt None fault raw_lines =
     (map (\<lambda>line. normalize_message rt (data_payload line))
          (filter (\<lambda>line. line \<noteq> []) (map (\<lambda>raw_line. py_strip (decode_replace raw_line)) raw_lines)),
      if fault then Raised OSError else Exhausted)"
proof (induction raw_lines)
  case Nil
  show ?case by simp
next
  case (Cons raw_line rest)
  have "length (str ''data:'') = 5" by (simp add: str_def)
  with Cons show ?case
    by (simp add: Let_def at_yield_def data_payload_def strip_after_prefix)
qed

section \<open>Facts about the selection of speaker and body\<close>

text \<open>
  The value of the first key, in the given order, whose value is truthy; and, in the words
  of the specification, of the first key that is present with a value other than null.
\<close>

fun first_truthy :: "'f pyrt \<Rightarrow> (pystr \<times> 'f json) list \<Rightarrow> pystr list \<Rightarrow> 'f json option" where
  "first_truthy rt d [] = None"
| "first_truthy rt d (k # ks) =
     (if truthy rt (dict_get d k) then Some (dict_get d k) else first_truthy rt d ks)"

fun first_present :: "(pystr \<times> 'f json) list \<Rightarrow> pystr list \<Rightarrow> 'f json option" where
  "first_present d [] = None"
| "first_present d (k # ks) =
     (case map_of d k of
        None \<Rightarrow> first_present d ks
      | Some JNull \<Rightarrow> first_present d ks
      | Some v \<Rightarrow> Some v)"

definition speaker_keys :: "pystr list" where
  "speaker_keys = [str ''user'', str ''sender'', str ''name'', str ''role'']"

definition body_keys :: "pystr list" where
  "body_keys = [str ''message'', str ''content'', str ''text'', str ''body'']"

text \<open>
  What the code selects as the body: the first truthy value among \<open>message\<close>, \<open>content\<close>
  and \<open>text\<close>, and otherwise whatever \<open>body\<close> holds, \<open>None\<close> when it is absent.
\<close>

definition selected_body :: "'f pyrt \<Rightarrow> (pystr \<times> 'f json) list \<Rightarrow> 'f json" where
  "selected_body rt d =
     (case first_truthy rt d (butlast body_keys) of
        Some v \<Rightarrow> v
      | None \<Rightarrow> dict_get d (last body_keys))"

lemma first_truthy_Some: "first_truthy rt d ks = Some v \<Longrightarrow> truthy rt v"
  by (induction ks) (auto split: if_splits)

lemma first_truthy_None: "first_truthy rt d ks = None \<Longrightarrow> k \<in> set ks \<Longrightarrow> \<not> truthy rt (dict_get d k)"
  by (induction ks) (auto split: if_splits)

lemma message_prefix_first_truthy:
  "message_prefix rt d =
     (case first_truthy rt d speaker_keys of Some v \<Rightarrow> v | None \<Rightarrow> dict_get d (str ''role''))"
  by (simp add: message_prefix_def speaker_keys_def py_or_def)

lemma truthy_message_prefix:
  "truthy rt (message_prefix rt d) \<longleftrightarrow> first_truthy rt d speaker_keys \<noteq> None"
  by (simp add: message_prefix_def speaker_keys_def py_or_def)

lemma message_body_selected:
  "message_body rt d =
     (case selected_body rt d of
        JNull \<Rightarrow> JString (json_dumps rt False default_separators (JObject d))
      | JArray xs \<Rightarrow> JString (json_dumps rt False default_separators (JArray xs))
      | JObject kvs \<Rightarrow> JString (json_dumps rt False default_separators (JObject kvs))
      | v \<Rightarrow> v)"
proof -
  have "selected_body rt d =
      py_or rt (py_or rt (py_or rt (dict_get d (str ''message'')) (dict_get d (str ''content'')))
                         (dict_get d (str ''text'')))
               (dict_get d (str ''body''))"
    by (simp add: selected_body_def body_keys_def py_or_def)
  then have "message_body rt d =
      (case selected_body rt d of
         JNull \<Rightarrow> JString (json_dumps rt False default_separators (JObject d))
       | JArray xs \<Rightarrow> JString (json_dumps rt False default_separators (selected_body rt d))
       | JObject kvs \<Rightarrow> JString (json_dumps rt False default_separators (selected_body rt d))
       | v \<Rightarrow> selected_body rt d)"
    by (simp only: message_body_def Let_def)
  then show ?thesis
    by (cases "selected_body rt d") simp_all
qed

lemmas normalize_eval =
  normalize_message_def message_prefix_def message_body_def dict_get_def py_or_def truthy_def
  py_str_def Let_def default_separators_def json_string_def json_escape_char_def
  int_str_def nat_digits.simps

text \<open>
  The separators of the compact encoding, \<open>separators=(",", ":")\<close>, which leaves no white
  space between the tokens.
\<close>

definition compact_separators :: "pystr \<times> pystr" where
  "compact_separators = (str '','', str '':'')"

definition is_structured :: "'f json \<Rightarrow> bool" where
  "is_structured v = (case v of JArray xs \<Rightarrow> True | JObject kvs \<Rightarrow> True | _ \<Rightarrow> False)"

lemma dumps_a1:
  "json_dumps rt False default_separators (JObject [(str ''a'', JInt 1)]) = str ''{\"a\": 1}''"
  by (simp add: default_separators_def json_string_def json_escape_char_def int_str_def
      nat_digits.simps str_def)

lemma dumps_a1_compact:
  "json_dumps rt False compact_separators (JObject [(str ''a'', JInt 1)]) = str ''{\"a\":1}''"
  by (simp add: compact_separators_def json_string_def json_escape_char_def int_str_def
      nat_digits.simps str_def)

section \<open>Facts about the limits of the interpreter\<close>

text \<open>
  The reader with the limits agrees with the reader without them: a value it returns is the
  value that one returns, and where it raises \<open>JSONDecodeError\<close> that one gives \<open>None\<close>.
  Where it raises another exception they need not agree.
\<close>

fun agrees :: "loads_exn + 'a \<Rightarrow> 'a option \<Rightarrow> bool" where
  "agrees (Inr x) y \<longleftrightarrow> y = Some x"
| "agrees (Inl JSONDecodeError) y \<longleftrightarrow> y = None"
| "agrees (Inl IntMaxStrDigitsError) y \<longleftrightarrow> True"
| "agrees (Inl RecursionError) y \<longleftrightarrow> True"

lemma read_number_None: "read_number lim rt s = None \<longleftrightarrow> scan_number rt s = None"
  by (auto simp: read_number_def scan_number_def Let_def split: prod.splits option.splits)

lemma read_number_Some:
  "read_number lim rt s = Some res \<Longrightarrow>
   (\<exists>x. res = Inr x \<and> scan_number rt s = Some x) \<or> res = Inl IntMaxStrDigitsError"
  by (auto simp: read_number_def scan_number_def Let_def
      split: prod.splits option.splits if_splits)

lemma read_agrees:
  "agrees (read_value lim rt depth s) (parse_value rt s)"
  "agrees (read_elements lim rt depth acc s) (parse_elements rt acc s)"
  "agrees (read_members lim rt depth acc' s) (parse_members rt acc' s)"
proof (induction lim rt depth s and lim rt depth acc s and lim rt depth acc' s
    rule: read_value_read_elements_read_members.induct)
  case (1 lim rt depth s)
  note rv = read_value.simps [of lim rt depth s] and pv = parse_value.simps [of rt s]
  show ?case
  proof (cases s)
    case Nil
    show ?thesis unfolding rv pv using Nil by simp
  next
    case (Cons c r)
    consider (string) "c = 34" | (object) "c \<noteq> 34" "c = 123"
      | (array) "c \<noteq> 34" "c \<noteq> 123" "c = 91" | (other) "c \<noteq> 34" "c \<noteq> 123" "c \<noteq> 91"
      by blast
    then show ?thesis
    proof cases
      case string
      show ?thesis unfolding rv pv using Cons string by (simp split: option.splits)
    next
      case object
      show ?thesis
      proof (cases depth)
        case zero: 0
        show ?thesis unfolding rv pv using Cons object zero by simp
      next
        case (Suc depth')
        show ?thesis
        proof (cases "skip_ws r")
          case empty: Nil
          show ?thesis unfolding rv pv using Cons object Suc empty by simp
        next
          case sk: (Cons d r')
          show ?thesis
          proof (cases "d \<noteq> 125 \<and> d = 34")
            case False
            show ?thesis unfolding rv pv using Cons object Suc sk False by auto
          next
            case True
            with "1.IH"(1) [OF Cons object Suc sk]
            have "agrees (read_members lim rt depth' [] r') (parse_members rt [] r')" by simp
            then have "agrees (case read_members lim rt depth' [] r' of
                                 Inl e \<Rightarrow> Inl e
                               | Inr (kvs, rest) \<Rightarrow> Inr (JObject kvs, rest))
                              (case parse_members rt [] r' of
                                 None \<Rightarrow> None
                               | Some (kvs, rest) \<Rightarrow> Some (JObject kvs, rest))"
              by (cases "(read_members lim rt depth' [] r', parse_members rt [] r')"
                  rule: agrees.cases) auto
            then show ?thesis unfolding rv pv using Cons object Suc sk True by simp
          qed
        qed
      qed
    next
      case array
      show ?thesis
      proof (cases depth)
        case zero: 0
        show ?thesis unfolding rv pv using Cons array zero by simp
      next
        case (Suc depth')
        show ?thesis
        proof (cases "skip_ws r")
          case empty: Nil
          show ?thesis unfolding rv pv using Cons array Suc empty by simp
        next
          case sk: (Cons d r')
          show ?thesis
          proof (cases "d = 93")
            case True
            show ?thesis unfolding rv pv using Cons array Suc sk True by simp
          next
            case False
            with "1.IH"(2) [OF Cons array Suc sk]
            have "agrees (read_elements lim rt depth' [] (d # r')) (parse_elements rt [] (d # r'))"
              by simp
            then have "agrees (case read_elements lim rt depth' [] (d # r') of
                                 Inl e \<Rightarrow> Inl e
                               | Inr (xs, rest) \<Rightarrow> Inr (JArray xs, rest))
                              (case parse_elements rt [] (d # r') of
                                 None \<Rightarrow> None
                               | Some (xs, rest) \<Rightarrow> Some (JArray xs, rest))"
              by (cases "(read_elements lim rt depth' [] (d # r'), parse_elements rt [] (d # r'))"
                  rule: agrees.cases) auto
            then show ?thesis unfolding rv pv using Cons array Suc sk False by simp
          qed
        qed
      qed
    next
      case other
      show ?thesis
      proof (cases "read_number lim rt s")
        case None
        then have sn: "scan_number rt s = None" by (simp add: read_number_None)
        show ?thesis unfolding rv pv using None sn Cons other by simp
      next
        case (Some res)
        from read_number_Some [OF Some] show ?thesis
        proof
          assume a: "\<exists>x. res = Inr x \<and> scan_number rt s = Some x"
          show ?thesis unfolding rv pv using a Some Cons other by auto
        next
          assume a: "res = Inl IntMaxStrDigitsError"
          show ?thesis unfolding rv pv using a Some Cons other by simp
        qed
      qed
    qed
  qed
next
  case (2 lim rt depth acc s)
  note re = read_elements.simps [of lim rt depth acc s] and pe = parse_elements.simps [of rt acc s]
  show ?case
  proof (cases "read_value lim rt depth s")
    case (Inl e)
    with "2.IH"(1) show ?thesis by (cases e) (simp_all add: re pe)
  next
    case (Inr b)
    obtain v r where b: "b = (v, r)" by (cases b)
    with Inr "2.IH"(1) have pv: "parse_value rt s = Some (v, r)" by simp
    show ?thesis
    proof (cases "length r < length s")
      case False
      with Inr b pv show ?thesis by (simp add: re pe)
    next
      case True
      show ?thesis
      proof (cases "skip_ws r")
        case Nil
        with Inr b pv True show ?thesis by (simp add: re pe)
      next
        case (Cons d r')
        show ?thesis
        proof (cases "d \<noteq> 93 \<and> d = 44")
          case False
          with Inr b pv True Cons show ?thesis by (auto simp: re pe)
        next
          case c: True
          with "2.IH"(2) [OF Inr b [symmetric] True Cons] Inr b pv True Cons show ?thesis
            by (simp add: re pe)
        qed
      qed
    qed
  qed
next
  case (3 lim rt depth acc s)
  note rm = read_members.simps [of lim rt depth acc s] and pm = parse_members.simps [of rt acc s]
  show ?case
  proof (cases "scanstring s")
    case None
    then show ?thesis by (simp add: rm pm)
  next
    case (Some x2)
    obtain key r where x2: "x2 = (key, r)" by (cases x2)
    show ?thesis
    proof (cases "skip_ws r")
      case Nil
      with Some x2 show ?thesis by (simp add: rm pm)
    next
      case sk: (Cons c r1)
      show ?thesis
      proof (cases "c = 58")
        case False
        with Some x2 sk show ?thesis by (simp add: rm pm)
      next
        case colon: True
        note IHv = "3.IH"(1) [OF Some x2 [symmetric] sk colon]
        show ?thesis
        proof (cases "read_value lim rt depth (skip_ws r1)")
          case (Inl e)
          with IHv Some x2 sk colon show ?thesis by (cases e) (simp_all add: rm pm)
        next
          case (Inr b)
          obtain v r2 where b: "b = (v, r2)" by (cases b)
          with Inr IHv have pv: "parse_value rt (skip_ws r1) = Some (v, r2)" by simp
          show ?thesis
          proof (cases "length r2 < length (skip_ws r1)")
            case False
            with Some x2 sk colon Inr b pv show ?thesis by (simp add: rm pm)
          next
            case lt: True
            show ?thesis
            proof (cases "skip_ws r2")
              case Nil
              with Some x2 sk colon Inr b pv lt show ?thesis by (simp add: rm pm)
            next
              case sk2: (Cons d r3)
              show ?thesis
              proof (cases "d \<noteq> 125 \<and> d = 44")
                case False
                with Some x2 sk colon Inr b pv lt sk2 show ?thesis by (auto simp: rm pm)
              next
                case comma: True
                show ?thesis
                proof (cases "skip_ws r3")
                  case Nil
                  with Some x2 sk colon Inr b pv lt sk2 comma show ?thesis by (simp add: rm pm)
                next
                  case sk3: (Cons q r4)
                  show ?thesis
                  proof (cases "q = 34")
                    case False
                    with Some x2 sk colon Inr b pv lt sk2 comma sk3 show ?thesis
                      by (simp add: rm pm)
                  next
                    case quote: True
                    from comma have d1: "d \<noteq> 125" and d2: "d = 44" by simp_all
                    from "3.IH"(2) [OF Some x2 [symmetric] sk colon Inr b [symmetric] lt sk2
                        d1 d2 sk3 quote]
                      Some x2 sk colon Inr b pv lt sk2 comma sk3 quote
                    show ?thesis by (simp add: rm pm)
                  qed
                qed
              qed
            qed
          qed
        qed
      qed
    qed
  qed
qed

lemma read_value_length: "read_value lim rt depth s = Inr (v, r) \<Longrightarrow> length r < length s"
  using read_agrees(1) [of lim rt depth s] by (simp add: parse_value_length)

lemma json_loads_limited_agrees: "agrees (json_loads_limited lim rt s) (json_loads rt s)"
  using read_agrees(1) [of lim rt "recursion_left lim" "skip_ws s"]
  by (cases "(read_value lim rt (recursion_left lim) (skip_ws s), parse_value rt (skip_ws s))"
      rule: agrees.cases) (auto simp: json_loads_limited_def json_loads_def)

text \<open>
  So \<open>normalize_message\<close> is what \<open>_normalize_message\<close> returns whenever it returns, and
  it raises exactly what \<open>json.loads\<close> raises other than \<open>JSONDecodeError\<close>.
\<close>

lemma normalize_message_limited_returns:
  assumes "normalize_message_limited lim rt s = Inr m"
  shows "m = normalize_message rt s"
proof (cases "json_loads_limited lim rt s")
  case (Inl e)
  with assms have e: "e = JSONDecodeError" and m: "m = \<lparr>text = s, raw = JString s\<rparr>"
    by (cases e; simp add: normalize_message_limited_def)+
  from Inl e json_loads_limited_agrees [of lim rt s] have "json_loads rt s = None" by simp
  with m show ?thesis by (simp add: normalize_message_def)
next
  case (Inr parsed)
  with json_loads_limited_agrees [of lim rt s] have "json_loads rt s = Some parsed" by simp
  with assms Inr show ?thesis
    by (cases parsed) (auto simp: normalize_message_limited_def normalize_message_def Let_def)
qed

lemma normalize_message_limited_raises:
  "normalize_message_limited lim rt s = Inl e
   \<longleftrightarrow> json_loads_limited lim rt s = Inl e \<and> e \<noteq> JSONDecodeError"
proof (cases "json_loads_limited lim rt s")
  case (Inl e')
  then show ?thesis by (cases e') (auto simp: normalize_message_limited_def)
next
  case (Inr parsed)
  then show ?thesis by (cases parsed) (auto simp: normalize_message_limited_def Let_def)
qed

subsection \<open>Two texts past the limits\<close>

text \<open>
  The limits the examples are run under: the digit limit of an interpreter that was not
  configured, 4300, and a depth of 1000, the recursion limit an interpreter starts with.
  What is shown of the two texts holds for other limits too: of the brackets for every
  depth below their number (\<open>json_loads_limited_too_deep\<close>), of the digits for every digit
  limit they exceed (\<open>json_loads_limited_long_int\<close>).
\<close>

definition default_limits :: limits where
  "default_limits = \<lparr>int_max_str_digits = 4300, recursion_left = 1000\<rparr>"

text \<open>
  More opening brackets than the scanner can have open: \<open>RecursionError\<close>, whatever
  follows them. An integer literal of more digits than the limit, in an array that is not
  closed: \<open>ValueError\<close>. Both texts are malformed: the reader without limits gives \<open>None\<close>.
\<close>

lemma read_value_too_deep:
  "read_value lim rt depth (replicate (Suc depth) 91 @ rest) = Inl RecursionError"
proof (induction depth)
  case 0
  show ?case by (simp add: read_value.simps [of lim rt 0])
next
  case (Suc depth)
  have sk: "skip_ws (91 # replicate depth 91 @ rest) = 91 # replicate depth 91 @ rest"
    by (simp add: skip_ws_def is_ws_def)
  from Suc have "read_elements lim rt depth [] (91 # replicate depth 91 @ rest) = Inl RecursionError"
    by (simp add: read_elements.simps [of lim rt depth "[]"])
  then show ?case
    by (simp add: read_value.simps [of lim rt "Suc depth"] sk)
qed

lemma json_loads_limited_too_deep:
  assumes "recursion_left lim < n"
  shows "json_loads_limited lim rt (replicate n 91) = Inl RecursionError"
proof -
  from assms have "replicate n (91::nat)
      = replicate (Suc (recursion_left lim)) 91 @ replicate (n - Suc (recursion_left lim)) 91"
    by (simp add: replicate_add [symmetric] del: replicate_Suc)
  moreover from assms have "skip_ws (replicate n 91) = replicate n 91"
    by (cases n) (simp_all add: skip_ws_def is_ws_def)
  ultimately show ?thesis
    using read_value_too_deep [of lim rt "recursion_left lim"
        "replicate (n - Suc (recursion_left lim)) 91"]
    by (simp add: json_loads_limited_def del: replicate_Suc)
qed

lemma scan_number_ones:
  "scan_number rt (49 # replicate n 49)
   = Some (JInt (int (digits_value (49 # replicate n 49))), [])"
  by (simp add: scan_number_def scan_integer_def scan_frac_def scan_exp_def is_digit_def)

lemma read_number_ones:
  assumes "0 < int_max_str_digits lim" and "int_max_str_digits lim \<le> n"
  shows "read_number lim rt (49 # replicate n 49) = Some (Inl IntMaxStrDigitsError)"
  using assms
  by (simp add: read_number_def scan_integer_def scan_frac_def scan_exp_def is_digit_def)

lemma json_loads_limited_long_int:
  assumes "0 < int_max_str_digits lim" and "int_max_str_digits lim \<le> n"
    and "0 < recursion_left lim"
  shows "json_loads_limited lim rt (91 # 49 # replicate n 49) = Inl IntMaxStrDigitsError"
proof -
  let ?ones = "49 # replicate n 49 :: pystr"
  have "read_value lim rt depth ?ones = Inl IntMaxStrDigitsError" for depth
    by (simp add: read_value.simps [of lim rt depth ?ones] read_number_ones [OF assms(1,2)]
        startswith_def str_def)
  then have "read_elements lim rt depth [] ?ones = Inl IntMaxStrDigitsError" for depth
    by (simp add: read_elements.simps [of lim rt depth "[]" ?ones])
  moreover have "skip_ws ?ones = ?ones" "skip_ws (91 # ?ones) = 91 # ?ones"
    by (simp_all add: skip_ws_def is_ws_def)
  moreover from assms(3) obtain depth' where "recursion_left lim = Suc depth'"
    by (cases "recursion_left lim") simp_all
  ultimately show ?thesis
    by (simp add: json_loads_limited_def read_value.simps [of lim rt _ "91 # ?ones"])
qed

lemma json_loads_long_int: "json_loads rt (91 # 49 # replicate n 49) = None"
proof -
  let ?ones = "49 # replicate n 49 :: pystr"
  have "parse_value rt ?ones = Some (JInt (int (digits_value ?ones)), [])"
    by (simp add: parse_value.simps [of rt ?ones] scan_number_ones startswith_def str_def)
  then have "parse_elements rt [] ?ones = None"
    by (simp add: parse_elements.simps [of rt "[]" ?ones] skip_ws_def)
  moreover have "skip_ws ?ones = ?ones" "skip_ws (91 # ?ones) = 91 # ?ones"
    by (simp_all add: skip_ws_def is_ws_def)
  ultimately show ?thesis
    by (simp add: json_loads_def parse_value.simps [of rt "91 # ?ones"])
qed

lemma parse_value_open_brackets: "parse_value rt (replicate n 91) = None"
proof (induction n)
  case 0
  show ?case by (simp add: parse_value.simps [of rt "[]"])
next
  case (Suc n)
  have sk: "skip_ws (replicate n 91) = replicate n 91"
    by (cases n) (simp_all add: skip_ws_def is_ws_def)
  show ?case
  proof (cases n)
    case 0
    then show ?thesis by (simp add: parse_value.simps [of rt "[91]"] skip_ws_def)
  next
    case (Suc m)
    from Suc.IH have "parse_elements rt [] (replicate n 91) = None"
      by (simp add: parse_elements.simps [of rt "[]" "replicate n 91"])
    with sk Suc show ?thesis
      by (simp add: parse_value.simps [of rt "91 # 91 # replicate m 91"])
  qed
qed

lemma json_loads_open_brackets: "json_loads rt (replicate n 91) = None"
proof -
  have "skip_ws (replicate n 91) = replicate n 91"
    by (cases n) (simp_all add: skip_ws_def is_ws_def)
  then show ?thesis by (simp add: json_loads_def parse_value_open_brackets)
qed

lemma json_loads_limited_not_json:
  "json_loads_limited lim rt (str ''not json'') = Inl JSONDecodeError"
  by (simp add: json_loads_limited_def read_value.simps read_number_def scan_integer_def
      skip_ws_def is_ws_def startswith_def str_def)

section \<open>Facts about the receive loop of the WebSocket driver\<close>

text \<open>
  The bytes of a frame as a server sends it, unmasked, and of a run of such frames; the
  bytes of a frame masked with a given key.
\<close>

definition server_frame :: "nat \<times> bytes \<Rightarrow> bytes" where
  "server_frame f = (case websocket_frame (fst f) (snd f) False [] of Inr b \<Rightarrow> b | Inl e \<Rightarrow> [])"

definition wire :: "(nat \<times> bytes) list \<Rightarrow> bytes" where
  "wire fs = concat (map server_frame fs)"

definition masked_frame :: "nat \<Rightarrow> bytes \<Rightarrow> bytes \<Rightarrow> bytes" where
  "masked_frame opcode payload key =
     (case websocket_frame opcode payload True key of Inr b \<Rightarrow> b | Inl e \<Rightarrow> [])"

text \<open>
  The pong frames for a list of ping payloads, each masked with the next four bytes of the
  random source, from position \<open>u\<close> on.
\<close>

fun pong_frames :: "(nat \<Rightarrow> byte) \<Rightarrow> nat \<Rightarrow> bytes list \<Rightarrow> bytes list" where
  "pong_frames ent u [] = []"
| "pong_frames ent u (p # ps) =
     masked_frame 10 p (map ent [u ..< u + 4]) # pong_frames ent (u + 4) ps"

definition is_text :: "nat \<times> bytes \<Rightarrow> bool" where
  "is_text f \<longleftrightarrow> fst f = 1"

definition is_ping :: "nat \<times> bytes \<Rightarrow> bool" where
  "is_ping f \<longleftrightarrow> fst f = 9"

text \<open>A frame that is not a close frame, with a four-bit opcode and a payload that has a length field.\<close>

definition open_frame :: "nat \<times> bytes \<Rightarrow> bool" where
  "open_frame f \<longleftrightarrow> fst f < 16 \<and> fst f \<noteq> 8 \<and> length (snd f) < 2 ^ 64"

lemma frame_header_total: "len < 2 ^ 64 \<Longrightarrow> \<exists>h. frame_header opcode len m = Inr h"
  by (simp add: frame_header_def int_to_bytes_def Let_def)

lemma websocket_frame_total:
  "length payload < 2 ^ 64 \<Longrightarrow> \<exists>b. websocket_frame opcode payload m key = Inr b"
  using frame_header_total [of "length payload" opcode m]
  by (auto simp: websocket_frame_def)

lemma and15_small: "op < 16 \<Longrightarrow> (op::nat) AND 15 = op"
proof -
  assume "op < 16"
  have "op AND 15 = take_bit 4 op" by (simp add: take_bit_eq_mask mask_eq_exp_minus_1)
  also have "\<dots> = op" using \<open>op < 16\<close> by (simp add: take_bit_nat_eq_self)
  finally show ?thesis .
qed

lemma recv_server_frame:
  assumes "fst f < 16" and "length (snd f) < 2 ^ 64"
    and "rx_bytes (rx s) = server_frame f @ rest"
  shows "\<exists>r. recv_frame s = (Inr f, s\<lparr>rx := r\<rparr>) \<and> rx_bytes r = rest"
proof -
  obtain opcode payload where f: "f = (opcode, payload)" by (cases f)
  with assms(2) obtain b where b: "websocket_frame opcode payload False [] = Inr b"
    using websocket_frame_total by fastforce
  with f have "server_frame f = b" by (simp add: server_frame_def)
  with assms(3) have "rx_bytes (rx s) = b @ rest" by simp
  with b obtain r where "recv_frame s = (Inr (opcode AND 15, payload), s\<lparr>rx := r\<rparr>)"
    and "rx_bytes r = rest"
    using recv_frame_bytes [of opcode payload False "[]" b s rest] by auto
  with f assms(1) show ?thesis by (auto simp: and15_small)
qed

lemma send_pong:
  assumes "length payload < 2 ^ 64" and "tx_faults s = []"
  shows "send_websocket_frame 10 payload True s =
           (Inr (), s\<lparr>entropy_used := entropy_used s + 4,
                      tx := tx s @ [masked_frame 10 payload
                                      (map (entropy s) [entropy_used s ..< entropy_used s + 4])]\<rparr>)"
proof -
  from assms(1) obtain h where h: "frame_header 10 (length payload) True = Inr h"
    using frame_header_total by blast
  with assms(2) show ?thesis
    by (simp add: send_websocket_frame_def os_urandom_def sock_sendall_def masked_frame_def
        websocket_frame_def)
qed

text \<open>A pong frame, read back by the decoder, is a frame of opcode 10 with the payload of the ping.\<close>

lemma pong_frame_decodes:
  assumes "length payload < 2 ^ 64" and "length key = 4"
    and "rx_bytes (rx s) = masked_frame 10 payload key @ rest"
  shows "\<exists>r. recv_frame s = (Inr (10, payload), s\<lparr>rx := r\<rparr>) \<and> rx_bytes r = rest"
proof -
  from assms(1) obtain b where b: "websocket_frame 10 payload True key = Inr b"
    using websocket_frame_total by blast
  then have "masked_frame 10 payload key = b" by (simp add: masked_frame_def)
  with assms(3) have "rx_bytes (rx s) = b @ rest" by simp
  with b assms(2) obtain r where "recv_frame s = (Inr (10 AND 15, payload), s\<lparr>rx := r\<rparr>)"
    and "rx_bytes r = rest"
    using recv_frame_bytes [of 10 payload True key b s rest] by auto
  then show ?thesis by (auto simp: and15_small)
qed

section \<open>Facts about the lifetime of the socket\<close>

text \<open>
  No call but \<open>sock.close()\<close> changes the count of close calls; the receive loop, with its
  \<open>finally\<close>, makes exactly one, however it ends.
\<close>

lemma sock_recv_close_calls: "sock_recv n s = (res, s') \<Longrightarrow> close_calls s' = close_calls s"
  by (auto simp: sock_recv_def split: list.splits rx_event.splits if_splits)

lemma sock_sendall_close_calls:
  "sock_sendall data s = (res, s') \<Longrightarrow> close_calls s' = close_calls s"
  by (auto simp: sock_sendall_def split: list.splits if_splits)

lemma send_websocket_frame_close_calls:
  "send_websocket_frame opcode payload m s = (res, s') \<Longrightarrow> close_calls s' = close_calls s"
  by (auto simp: send_websocket_frame_def os_urandom_def dest!: sock_sendall_close_calls
      split: sum.splits if_splits)

lemma recv_exact_loop_close_calls:
  "recv_exact_loop nbytes data s = (res, s') \<Longrightarrow> close_calls s' = close_calls s"
proof (induction nbytes data s arbitrary: res s' rule: recv_exact_loop.induct)
  case (1 nbytes data s)
  show ?case
  proof (cases "length data < nbytes")
    case False
    with "1.prems" show ?thesis by (simp add: recv_exact_loop.simps [of nbytes data s])
  next
    case True
    obtain r s1 where rv: "sock_recv (nbytes - length data) s = (r, s1)"
      by (cases "sock_recv (nbytes - length data) s")
    then have c1: "close_calls s1 = close_calls s" by (rule sock_recv_close_calls)
    show ?thesis
    proof (cases r)
      case (Inl e)
      with True rv "1.prems" have "s' = s1"
        by (simp add: recv_exact_loop.simps [of nbytes data s])
      with c1 show ?thesis by simp
    next
      case (Inr chunk)
      show ?thesis
      proof (cases "chunk = []")
        case empty: True
        with True rv Inr "1.prems" have "s' = s1"
          by (auto simp: recv_exact_loop.simps [of nbytes data s])
        with c1 show ?thesis by simp
      next
        case False
        with True rv Inr "1.prems"
        have "recv_exact_loop nbytes (data @ chunk) s1 = (res, s')"
          by (simp add: recv_exact_loop.simps [of nbytes data s])
        with "1.IH" [OF True rv [symmetric] Inr False] c1 show ?thesis by simp
      qed
    qed
  qed
qed

lemma recv_exact_close_calls: "recv_exact n s = (res, s') \<Longrightarrow> close_calls s' = close_calls s"
  using recv_exact_loop_close_calls [of n "[]" s res s'] by (simp add: recv_exact_def)

lemma recv_frame_header_close_calls:
  "recv_frame_header s = (res, s') \<Longrightarrow> close_calls s' = close_calls s"
  by (auto simp: recv_frame_header_def Let_def dest!: recv_exact_close_calls
      split: prod.splits sum.splits if_splits)

lemma recv_frame_close_calls: "recv_frame s = (res, s') \<Longrightarrow> close_calls s' = close_calls s"
  by (auto simp: recv_frame_def Let_def dest!: recv_exact_close_calls recv_frame_header_close_calls
      split: prod.splits sum.splits if_splits)

lemma ws_loop_closes_once:
  "ws_loop rt demand s = (msgs, out, s') \<Longrightarrow> close_calls s' = Suc (close_calls s)"
proof (induction rt demand s arbitrary: msgs out s' rule: ws_loop.induct)
  case (1 rt demand s)
  obtain res s1 where rf: "recv_frame s = (res, s1)" by (cases "recv_frame s")
  then have c1: "close_calls s1 = close_calls s" by (rule recv_frame_close_calls)
  show ?case
  proof (cases res)
    case (Inl e)
    with rf "1.prems" c1 show ?thesis
      by (auto simp: ws_loop.simps [of rt demand s] sock_close_def)
  next
    case (Inr f)
    obtain opcode payload where f: "f = (opcode, payload)" by (cases f)
    note rf' = rf [unfolded Inr f]
    consider (frame_text) "opcode = 1" | (frame_close) "opcode = 8" | (frame_ping) "opcode = 9"
      | (other) "opcode \<noteq> 1" "opcode \<noteq> 8" "opcode \<noteq> 9" by blast
    then show ?thesis
    proof cases
      case frame_text
      show ?thesis
      proof (cases "at_yield demand")
        case None
        with frame_text rf' "1.prems" c1 show ?thesis
          by (auto simp: ws_loop.simps [of rt demand s] sock_close_def)
      next
        case (Some demand')
        obtain ms o2 s2 where l: "ws_loop rt demand' s1 = (ms, o2, s2)"
          by (cases "ws_loop rt demand' s1") auto
        have "close_calls s2 = Suc (close_calls s1)"
          by (rule "1.IH"(1) [OF rf' [symmetric] refl refl frame_text refl Some l])
        moreover from frame_text rf' Some l "1.prems" have "s' = s2"
          by (simp add: ws_loop.simps [of rt demand s])
        ultimately show ?thesis using c1 by simp
      qed
    next
      case frame_close
      with frame_close rf' "1.prems" c1 show ?thesis
        by (auto simp: ws_loop.simps [of rt demand s] sock_close_def)
    next
      case frame_ping
      obtain r2 s2 where sp: "send_websocket_frame 10 payload True s1 = (r2, s2)"
        by (cases "send_websocket_frame 10 payload True s1")
      then have c2: "close_calls s2 = close_calls s1" by (rule send_websocket_frame_close_calls)
      show ?thesis
      proof (cases r2)
        case (Inl e)
        with frame_ping rf' sp "1.prems" c1 c2 show ?thesis
          by (auto simp: ws_loop.simps [of rt demand s] sock_close_def)
      next
        case (Inr u)
        with frame_ping rf' sp "1.prems" have "ws_loop rt demand s2 = (msgs, out, s')"
          by (simp add: ws_loop.simps [of rt demand s])
        with "1.IH"(2) [OF rf' [symmetric] refl refl _ _ _ sp [unfolded Inr, symmetric] refl] frame_ping
        have "close_calls s' = Suc (close_calls s2)" by simp
        with c1 c2 show ?thesis by simp
      qed
    next
      case other
      with rf' "1.prems" have "ws_loop rt demand s1 = (msgs, out, s')"
        by (simp add: ws_loop.simps [of rt demand s])
      with "1.IH"(3) [OF rf' [symmetric] refl refl] other
      have "close_calls s' = Suc (close_calls s1)" by simp
      with c1 show ?thesis by simp
    qed
  qed
qed

lemma read_headers_loop_close_calls:
  "read_headers_loop buffer s = (res, s') \<Longrightarrow> close_calls s' = close_calls s"
proof (induction buffer s arbitrary: res s' rule: read_headers_loop.induct)
  case (1 buffer s)
  show ?case
  proof (cases "py_in (map of_nat (crlf @ crlf)) buffer")
    case True
    with "1.prems" show ?thesis by (simp add: read_headers_loop.simps [of buffer s])
  next
    case False
    obtain r s1 where rv: "sock_recv 1 s = (r, s1)" by (cases "sock_recv 1 s")
    then have c1: "close_calls s1 = close_calls s" by (rule sock_recv_close_calls)
    show ?thesis
    proof (cases r)
      case (Inl e)
      with False rv "1.prems" c1 show ?thesis
        by (auto simp: read_headers_loop.simps [of buffer s])
    next
      case (Inr chunk)
      show ?thesis
      proof (cases "chunk = []")
        case True
        with False rv Inr "1.prems" c1 show ?thesis
          by (auto simp: read_headers_loop.simps [of buffer s])
      next
        case nonempty: False
        with False rv Inr "1.prems" have "read_headers_loop (buffer @ chunk) s1 = (res, s')"
          by (simp add: read_headers_loop.simps [of buffer s])
        with "1.IH" [OF False rv [symmetric] Inr nonempty] c1 show ?thesis by simp
      qed
    qed
  qed
qed

lemma read_http_response_headers_close_calls:
  "read_http_response_headers s = (res, s') \<Longrightarrow> close_calls s' = close_calls s"
  by (auto simp: read_http_response_headers_def dest!: read_headers_loop_close_calls
      split: prod.splits sum.splits)

lemma send_websocket_message_close_calls:
  "send_websocket_message txt s = (res, s') \<Longrightarrow> close_calls s' = close_calls s"
  by (auto simp: send_websocket_message_def dest!: send_websocket_frame_close_calls
      split: option.splits)

text \<open>
  A run of the WebSocket driver that does not end with an exception has closed its socket
  exactly once: the loop was reached, and the loop closes.
\<close>

lemma stream_websocket_closes_unless_raised:
  assumes "outcome (stream_websocket rt parsed question demand ev) = Exhausted
           \<or> outcome (stream_websocket rt parsed question demand ev) = Closed"
  shows "\<exists>s'. conn (stream_websocket rt parsed question demand ev) = Some s'
              \<and> close_calls s' = Suc (close_calls (peer ev))"
  using assms
  by (auto simp: stream_websocket_def Let_def ws_raised_def os_urandom_def
      split: if_splits prod.splits option.splits sum.splits
      dest!: sock_sendall_close_calls read_http_response_headers_close_calls
        send_websocket_message_close_calls ws_loop_closes_once)

subsection \<open>Three runs of the handshake\<close>

text \<open>The server URL \<open>ws://host\<close>, as \<open>urlparse\<close> gives it.\<close>

definition ws_host :: parsed_url where
  "ws_host = \<lparr>scheme = str ''ws'', hostname = Some (str ''host''), port = None, path = [],
              query = [], geturl = str ''ws://host''\<rparr>"

text \<open>A network where the connection succeeds and gives the socket \<open>s\<close>.\<close>

definition network :: "sock \<Rightarrow> env" where
  "network s = \<lparr>connect_fault = False, tls_fault = False, peer = s, urlopen_result = Inl OSError\<rparr>"

text \<open>A response that accepts the upgrade, and one that refuses it.\<close>

definition upgrade_response :: bytes where
  "upgrade_response = ascii_bytes ''HTTP/1.1 101 Switching Protocols'' @ [13, 10, 13, 10]"

definition refusal_response :: bytes where
  "refusal_response = ascii_bytes ''HTTP/1.1 400 Bad Request'' @ [13, 10, 13, 10]"

text \<open>
  Three servers: one that sends nothing, so that the first \<open>recv\<close> times out; one that
  accepts the upgrade and then resets the connection, so that the second \<open>sendall\<close>
  raises; one that refuses the upgrade.
\<close>

definition silent_peer :: sock where
  "silent_peer = (scripted_sock [])\<lparr>rx := [RxFault]\<rparr>"

definition reset_peer :: sock where
  "reset_peer = (scripted_sock [upgrade_response])\<lparr>tx_faults := [False, True]\<rparr>"

definition refusing_peer :: sock where
  "refusing_peer = scripted_sock [refusal_response]"

lemma encode_utf8_ascii: "list_all (\<lambda>c. c < 128) s \<Longrightarrow> encode_utf8 s = Some (map of_nat s)"
  by (induction s) (simp_all add: utf8_encode_char_def)

lemma b64_char_ascii: "b64_char n < 128"
  unfolding b64_char_def by arith

lemma b64encode_values_ascii: "list_all (\<lambda>c. c < 128) (b64encode_values bs)"
  by (induction bs rule: b64encode_values.induct) (simp_all add: b64_char_ascii)

lemma handshake_request_ascii:
  assumes "list_all (\<lambda>c. c < 128) target" and "list_all (\<lambda>c. c < 128) host"
  shows "list_all (\<lambda>c. c < 128) (handshake_request target host (b64encode bs))"
  using assms b64encode_values_ascii [of "map unat bs"]
  by (simp add: handshake_request_def b64encode_def crlf_def str_def)

lemma read_upgrade_response:
  "read_http_response_headers
     \<lparr>rx = [RxData upgrade_response], tx_faults = tf, tx = t, close_calls = c,
      entropy = en, entropy_used = eu\<rparr>
   = (Inr (str ''HTTP/1.1 101 Switching Protocols'' @ crlf @ crlf),
      \<lparr>rx = [], tx_faults = tf, tx = t, close_calls = c, entropy = en, entropy_used = eu\<rparr>)"
  by (simp add: read_http_response_headers_def read_headers_loop.simps upgrade_response_def
      ascii_bytes_def sock_recv_def crlf_def startswith_def decode_replace_def str_def)

lemma upgrade_status_line:
  "py_in (str ''101'') (split_first crlf (str ''HTTP/1.1 101 Switching Protocols'' @ crlf @ crlf))"
  by (simp add: crlf_def str_def startswith_def)

lemma question_message:
  "json_dumps rt0 True default_separators (JObject [(str ''question'', JString (str ''hi''))])
   = str ''{\"question\": \"hi\"}''"
  by (simp add: default_separators_def json_string_def json_escape_char_def str_def)

lemma read_refusal_response:
  "read_http_response_headers
     \<lparr>rx = [RxData refusal_response], tx_faults = tf, tx = t, close_calls = c,
      entropy = en, entropy_used = eu\<rparr>
   = (Inr (str ''HTTP/1.1 400 Bad Request'' @ crlf @ crlf),
      \<lparr>rx = [], tx_faults = tf, tx = t, close_calls = c, entropy = en, entropy_used = eu\<rparr>)"
  by (simp add: read_http_response_headers_def read_headers_loop.simps refusal_response_def
      ascii_bytes_def sock_recv_def crlf_def startswith_def decode_replace_def str_def)

lemma refusal_status_line:
  "\<not> py_in (str ''101'') (split_first crlf (str ''HTTP/1.1 400 Bad Request'' @ crlf @ crlf))"
  by (simp add: crlf_def str_def startswith_def)

lemma handshake_encodes:
  "encode_utf8 (handshake_request (str ''/'') (str ''host'') (b64encode bs))
   = Some (map of_nat (handshake_request (str ''/'') (str ''host'') (b64encode bs)))"
proof -
  have "list_all (\<lambda>c. c < 128) (handshake_request (str ''/'') (str ''host'') (b64encode bs))"
    by (rule handshake_request_ascii) (simp_all add: str_def)
  then show ?thesis by (rule encode_utf8_ascii)
qed

lemma ws_not_wss: "str ''ws'' \<noteq> str ''wss''"
  by (simp add: str_def)

lemma question_payload:
  "encode_utf8 (str ''{\"question\": \"hi\"}'') = Some (ascii_bytes ''{\"question\": \"hi\"}'')"
  by (simp add: str_def utf8_encode_char_def ascii_bytes_def)

lemma question_payload_length: "length (ascii_bytes ''{\"question\": \"hi\"}'') = 18"
  by (simp add: ascii_bytes_def)

text \<open>A server that refuses the upgrade: the client closes the socket before it raises.\<close>

lemma refused_upgrade_closes:
  "outcome (stream_websocket rt0 ws_host (str ''hi'') None (network refusing_peer))
     = Raised (ConnectionError (str ''WebSocket upgrade failed''))
   \<and> map_option close_calls
        (conn (stream_websocket rt0 ws_host (str ''hi'') None (network refusing_peer))) = Some 1"
  by (simp add: stream_websocket_def ws_host_def network_def refusing_peer_def scripted_sock_def
      os_urandom_def handshake_encodes ws_not_wss sock_sendall_def read_refusal_response
      refusal_status_line sock_close_def ws_raised_def Let_def del: json_dumps.simps)

section \<open>Claims\<close>

text \<open>
  C1. For every payload \<open>P\<close> and every 4-byte mask key \<open>K\<close>, masking \<open>P\<close> with \<open>K\<close>
  as the frame encoder does and unmasking with the same key as the frame decoder does
  returns \<open>P\<close>: the XOR with \<open>K[i % 4]\<close> is its own inverse, and the decoder, reading
  the frame the encoder writes for \<open>P\<close> masked with \<open>K\<close>, returns \<open>P\<close>.
\<close>

theorem mask_unmask_roundtrip:
  assumes "length K = 4"
  shows "xor_mask K (xor_mask K P) = P
       \<and> (\<forall>opcode f (s::sock) rest.
            websocket_frame opcode P True K = Inr f \<and> rx_bytes (rx s) = f @ rest
            \<longrightarrow> (\<exists>r. recv_frame s = (Inr (opcode AND 15, P), s\<lparr>rx := r\<rparr>)
                      \<and> rx_bytes r = rest))"
proof (intro conjI allI impI)
  show "xor_mask K (xor_mask K P) = P" by (rule xor_mask_involution)
next
  fix opcode f rest and s :: sock
  assume "websocket_frame opcode P True K = Inr f \<and> rx_bytes (rx s) = f @ rest"
  with assms show "\<exists>r. recv_frame s = (Inr (opcode AND 15, P), s\<lparr>rx := r\<rparr>) \<and> rx_bytes r = rest"
    using recv_frame_bytes [of opcode P True K f s rest] by blast
qed

theorem mask_unmask_roundtrip_witness:
  "length [1, 2, 3, 4 :: byte] = 4
   \<and> xor_mask [1, 2, 3, 4] [104, 105, 33, 0, 255] = [105, 107, 34, 4, 254]
   \<and> xor_mask [1, 2, 3, 4] (xor_mask [1, 2, 3, 4] [104, 105, 33, 0, 255]) = [104, 105, 33, 0, 255]
   \<and> websocket_frame 1 [104, 105, 33, 0, 255] True [1, 2, 3, 4]
        = Inr [129, 133, 1, 2, 3, 4, 105, 107, 34, 4, 254]
   \<and> (\<exists>r. recv_frame (scripted_sock [[129, 133, 1], [2, 3, 4, 105, 107, 34, 4, 254]])
          = (Inr (1, [104, 105, 33, 0, 255]),
             scripted_sock [[129, 133, 1], [2, 3, 4, 105, 107, 34, 4, 254]]\<lparr>rx := r\<rparr>)
        \<and> rx_bytes r = [])"
proof -
  let ?K = "[1, 2, 3, 4 :: byte]" and ?P = "[104, 105, 33, 0, 255 :: byte]"
  let ?f = "[129, 133, 1, 2, 3, 4, 105, 107, 34, 4, 254 :: byte]"
  let ?s = "scripted_sock [[129, 133, 1], [2, 3, 4, 105, 107, 34, 4, 254]]"
  have len: "length ?K = 4" by simp
  have m: "xor_mask ?K ?P = [105, 107, 34, 4, 254]"
    by (simp add: xor_mask_def enumerate_eq_zip)
  have len5: "length ?P = 5" by simp
  have f: "websocket_frame 1 ?P True ?K = Inr ?f"
    unfolding websocket_frame_def len5 by (simp add: frame_header_def m)
  have rx: "rx_bytes (rx ?s) = ?f @ []" by (simp add: scripted_sock_def)
  have one: "(1::nat) AND 15 = 1" by simp
  have "xor_mask ?K (xor_mask ?K ?P) = ?P"
    using mask_unmask_roundtrip [OF len, of ?P] by (rule conjunct1)
  moreover have "\<exists>r. recv_frame ?s = (Inr (1 AND 15, ?P), ?s\<lparr>rx := r\<rparr>) \<and> rx_bytes r = []"
    using mask_unmask_roundtrip [OF len, of ?P] f rx by blast
  ultimately show ?thesis using len m f unfolding one by blast
qed

text \<open>
  C2. For every payload length \<open>L\<close> (below \<open>2^64\<close>, which every \<open>bytes\<close> object is),
  the encoder writes a header whose length field has the smallest of the three forms
  (7-bit, 16-bit, 64-bit big-endian) that can hold \<open>L\<close>, and the decoder reads \<open>L\<close>
  back from it.
\<close>

theorem length_field_minimal_and_decoded:
  assumes "L < 2 ^ 64"
  shows "\<exists>h. frame_header opcode L m = Inr h
           \<and> length h = 2 + form_extra_bytes (header_form h)
           \<and> L < form_capacity (header_form h)
           \<and> (\<forall>f. L < form_capacity f
                  \<longrightarrow> form_extra_bytes (header_form h) \<le> form_extra_bytes f)
           \<and> (\<forall>(s::sock) rest. rx_bytes (rx s) = h @ rest
                  \<longrightarrow> (\<exists>r. recv_frame_header s = (Inr (opcode AND 15, m, L), s\<lparr>rx := r\<rparr>)
                            \<and> rx_bytes r = rest))"
proof -
  from assms have "\<exists>h. frame_header opcode L m = Inr h"
    by (simp add: frame_header_def int_to_bytes_def Let_def)
  then obtain h where h: "frame_header opcode L m = Inr h" ..
  have form: "length h = 2 + form_extra_bytes (header_form h)
      \<and> L < form_capacity (header_form h)
      \<and> (\<forall>f. L < form_capacity f \<longrightarrow> form_extra_bytes (header_form h) \<le> form_extra_bytes f)"
    using h
  proof (cases rule: frame_header_cases)
    case (short b0 b1)
    then have "header_form h = Len7" by (simp add: header_form_def)
    with short show ?thesis by simp
  next
    case (medium b0 b1)
    then have "header_form h = Len16" by (simp add: header_form_def)
    moreover have "form_extra_bytes Len16 \<le> form_extra_bytes f" if "L < form_capacity f" for f
      using that medium(1) by (cases f) simp_all
    ultimately show ?thesis using medium by (simp add: length_big_endian)
  next
    case (long b0 b1)
    then have "header_form h = Len64" by (simp add: header_form_def)
    moreover have "form_extra_bytes Len64 \<le> form_extra_bytes f" if "L < form_capacity f" for f
      using that long(1) by (cases f) simp_all
    ultimately show ?thesis using long by (simp add: length_big_endian)
  qed
  have "\<exists>r. recv_frame_header s = (Inr (opcode AND 15, m, L), s\<lparr>rx := r\<rparr>) \<and> rx_bytes r = rest"
    if "rx_bytes (rx s) = h @ rest" for s :: sock and rest
    using h that by (rule recv_frame_header_bytes)
  with h form show ?thesis by blast
qed

theorem length_field_minimal_and_decoded_witness:
  "(300::nat) < 2 ^ 64
   \<and> frame_header 1 300 True = Inr [129, 254, 1, 44]
   \<and> header_form [129, 254, 1, 44] = Len16
   \<and> \<not> 300 < form_capacity Len7
   \<and> (\<exists>r. recv_frame_header (scripted_sock [[129], [254, 1, 44, 7, 7]])
          = (Inr (1, True, 300), scripted_sock [[129], [254, 1, 44, 7, 7]]\<lparr>rx := r\<rparr>)
        \<and> rx_bytes r = [7, 7])"
proof -
  let ?s = "scripted_sock [[129], [254, 1, 44, 7, 7]]"
  have lt: "(300::nat) < 2 ^ 64" by simp
  have h: "frame_header 1 300 True = Inr [129, 254, 1, 44]"
    by (simp add: frame_header_def int_to_bytes_def big_endian_2)
  have form: "header_form [129, 254, 1, 44] = Len16" by (simp add: header_form_def)
  have rx: "rx_bytes (rx ?s) = [129, 254, 1, 44] @ [7, 7]" by (simp add: scripted_sock_def)
  have one: "(1::nat) AND 15 = 1" by simp
  obtain h' where h': "frame_header 1 300 True = Inr h'"
    and dec: "\<forall>(s::sock) rest. rx_bytes (rx s) = h' @ rest
        \<longrightarrow> (\<exists>r. recv_frame_header s = (Inr (1 AND 15, True, 300), s\<lparr>rx := r\<rparr>)
              \<and> rx_bytes r = rest)"
    using length_field_minimal_and_decoded [OF lt, of 1 True] by blast
  from h h' have "h' = [129, 254, 1, 44]" by simp
  with dec rx
  have "\<exists>r. recv_frame_header ?s = (Inr (1 AND 15, True, 300), ?s\<lparr>rx := r\<rparr>)
           \<and> rx_bytes r = [7, 7]"
    by blast
  with lt h form show ?thesis unfolding one by simp
qed

text \<open>
  C3. The WebSocket driver closes its socket on every exit path, among them every exception
  raised after the socket was created. The receive loop does (\<open>ws_loop_closes_once\<close>), and
  so does the refusal of the upgrade (\<open>refused_upgrade_closes\<close>); but lines 96, 97 and 102
  stand before the \<open>try\<close> of line 103, and an exception raised there leaves
  \<open>_stream_websocket\<close> with no call of \<open>sock.close()\<close>. Two runs against \<open>ws://host\<close>:
  the server sends nothing and the \<open>recv\<close> of the handshake read times out; the server
  accepts the upgrade and the \<open>sendall\<close> of the question frame raises. Both end with
  \<open>OSError\<close> and a socket on which \<open>close\<close> was never called.
\<close>

theorem handshake_exceptions_leave_socket_open:
  "outcome (stream_websocket rt0 ws_host (str ''hi'') None (network silent_peer)) = Raised OSError
   \<and> map_option close_calls
        (conn (stream_websocket rt0 ws_host (str ''hi'') None (network silent_peer))) = Some 0
   \<and> outcome (stream_websocket rt0 ws_host (str ''hi'') None (network reset_peer)) = Raised OSError
   \<and> map_option close_calls
        (conn (stream_websocket rt0 ws_host (str ''hi'') None (network reset_peer))) = Some 0"
proof -
  have silent:
    "stream_websocket rt0 ws_host (str ''hi'') None (network silent_peer)
     = ws_raised OSError (str ''host'', 80)
         (Some \<lparr>rx = [], tx_faults = [],
                 tx = [map of_nat (handshake_request (str ''/'') (str ''host'')
                                     (b64encode (map of_nat [0 ..< 16])))],
                 close_calls = 0, entropy = (\<lambda>i. of_nat i), entropy_used = 16\<rparr>)"
    by (simp add: stream_websocket_def ws_host_def network_def silent_peer_def scripted_sock_def
        os_urandom_def handshake_encodes ws_not_wss sock_sendall_def
        read_http_response_headers_def read_headers_loop.simps [of "[]"] sock_recv_def
        crlf_def Let_def)
  have reset:
    "stream_websocket rt0 ws_host (str ''hi'') None (network reset_peer)
     = ws_raised OSError (str ''host'', 80)
         (Some \<lparr>rx = [], tx_faults = [],
                 tx = [map of_nat (handshake_request (str ''/'') (str ''host'')
                                     (b64encode (map of_nat [0 ..< 16])))],
                 close_calls = 0, entropy = (\<lambda>i. of_nat i), entropy_used = 20\<rparr>)"
    by (simp add: stream_websocket_def ws_host_def network_def reset_peer_def scripted_sock_def
        os_urandom_def handshake_encodes ws_not_wss sock_sendall_def read_upgrade_response
        upgrade_status_line question_message send_websocket_message_def question_payload
        send_websocket_frame_def frame_header_def question_payload_length Let_def
        del: json_dumps.simps)
  show ?thesis unfolding silent reset by (simp add: ws_raised_def)
qed

text \<open>
  C4, as amended. For every JSON object given to the normalizer, the speaker is the value of
  the first key among \<open>user\<close>, \<open>sender\<close>, \<open>name\<close>, \<open>role\<close>, in that order, whose value is
  truthy (not null, false, zero, or an empty string, list or object), and no speaker is
  shown when there is none. The body is the value of the first key among \<open>message\<close>,
  \<open>content\<close>, \<open>text\<close> whose value is truthy, and otherwise whatever \<open>body\<close> holds. The body
  is replaced by the whole mapping, serialized as JSON text, exactly when that value is null;
  a list or an object is replaced by its own serialization.
\<close>

theorem normalize_speaker_and_body:
  assumes "json_loads rt raw_text = Some (JObject d)"
  shows "normalize_message rt raw_text =
           \<lparr>text = (case first_truthy rt d speaker_keys of
                      Some speaker \<Rightarrow> py_str rt speaker @ str '': '' @ py_str rt (message_body rt d)
                    | None \<Rightarrow> py_str rt (message_body rt d)),
            raw = JObject d\<rparr>
         \<and> message_body rt d =
             (case selected_body rt d of
                JNull \<Rightarrow> JString (json_dumps rt False default_separators (JObject d))
              | JArray xs \<Rightarrow> JString (json_dumps rt False default_separators (JArray xs))
              | JObject kvs \<Rightarrow> JString (json_dumps rt False default_separators (JObject kvs))
              | v \<Rightarrow> v)"
proof
  show "normalize_message rt raw_text =
           \<lparr>text = (case first_truthy rt d speaker_keys of
                      Some speaker \<Rightarrow> py_str rt speaker @ str '': '' @ py_str rt (message_body rt d)
                    | None \<Rightarrow> py_str rt (message_body rt d)),
            raw = JObject d\<rparr>"
  proof (cases "first_truthy rt d speaker_keys")
    case None
    then have "\<not> truthy rt (message_prefix rt d)" by (simp add: truthy_message_prefix)
    with assms None show ?thesis by (simp add: normalize_message_def Let_def)
  next
    case (Some speaker)
    then have "message_prefix rt d = speaker" and "truthy rt speaker"
      by (simp_all add: message_prefix_first_truthy first_truthy_Some)
    with assms Some \<open>message_prefix rt d = speaker\<close> show ?thesis
      by (simp add: normalize_message_def Let_def)
  qed
  show "message_body rt d =
             (case selected_body rt d of
                JNull \<Rightarrow> JString (json_dumps rt False default_separators (JObject d))
              | JArray xs \<Rightarrow> JString (json_dumps rt False default_separators (JArray xs))
              | JObject kvs \<Rightarrow> JString (json_dumps rt False default_separators (JObject kvs))
              | v \<Rightarrow> v)"
    by (rule message_body_selected)
qed

theorem normalize_speaker_and_body_witness:
  "json_loads rt0 (str ''{\"role\": \"assistant\", \"body\": 0}'')
     = Some (JObject [(str ''role'', JString (str ''assistant'')), (str ''body'', JInt 0)])
   \<and> normalize_message rt0 (str ''{\"role\": \"assistant\", \"body\": 0}'')
       = \<lparr>text = str ''assistant: 0'',
          raw = JObject [(str ''role'', JString (str ''assistant'')), (str ''body'', JInt 0)]\<rparr>"
proof -
  let ?d = "[(str ''role'', JString (str ''assistant'')), (str ''body'', JInt 0)]
            :: (pystr \<times> unit json) list"
  have l: "json_loads rt0 (str ''{\"role\": \"assistant\", \"body\": 0}'') = Some (JObject ?d)"
    by (simp add: json_eval)
  have s: "first_truthy rt0 ?d speaker_keys = Some (JString (str ''assistant''))"
    by (simp add: speaker_keys_def dict_get_def truthy_def str_def)
  have b: "selected_body rt0 ?d = JInt 0"
    by (simp add: selected_body_def body_keys_def dict_get_def truthy_def str_def)
  have t: "py_str rt0 (JString (str ''assistant'')) @ str '': '' @ py_str rt0 (JInt 0 :: unit json)
      = str ''assistant: 0''"
    by (simp add: py_str_def int_str_def nat_digits.simps str_def)
  from normalize_speaker_and_body [OF l] have
    "normalize_message rt0 (str ''{\"role\": \"assistant\", \"body\": 0}'')
       = \<lparr>text = py_str rt0 (JString (str ''assistant'')) @ str '': ''
                   @ py_str rt0 (message_body rt0 ?d), raw = JObject ?d\<rparr>"
    and "message_body rt0 ?d = JInt 0"
    unfolding s b by simp_all
  with l t show ?thesis by simp
qed

text \<open>
  C4 as the claim states it fails: with \<open>user\<close> the empty string and \<open>sender\<close> \<open>bob\<close>, the
  first key present with a value other than null is \<open>user\<close>, yet the speaker shown is
  \<open>bob\<close>; the same for \<open>message\<close> and \<open>content\<close>. And \<open>{"message": ""}\<close> has a body field,
  yet its body is the whole mapping.
\<close>

theorem speaker_and_body_counterexample:
  "json_loads rt0 (str ''{\"user\": \"\", \"sender\": \"bob\", \"message\": \"\", \"content\": \"hi\"}'')
     = Some (JObject [(str ''user'', JString []), (str ''sender'', JString (str ''bob'')),
                      (str ''message'', JString []), (str ''content'', JString (str ''hi''))])
   \<and> first_present [(str ''user'', JString []), (str ''sender'', JString (str ''bob'')),
                       (str ''message'', JString []), (str ''content'', JString (str ''hi''))]
         speaker_keys = Some (JString [] :: unit json)
   \<and> first_present [(str ''user'', JString []), (str ''sender'', JString (str ''bob'')),
                       (str ''message'', JString []), (str ''content'', JString (str ''hi''))]
         body_keys = Some (JString [] :: unit json)
   \<and> normalize_message rt0
         (str ''{\"user\": \"\", \"sender\": \"bob\", \"message\": \"\", \"content\": \"hi\"}'')
       = \<lparr>text = str ''bob: hi'',
          raw = JObject [(str ''user'', JString []), (str ''sender'', JString (str ''bob'')),
                         (str ''message'', JString []), (str ''content'', JString (str ''hi''))]\<rparr>
   \<and> json_loads rt0 (str ''{\"message\": \"\"}'') = Some (JObject [(str ''message'', JString [])])
   \<and> first_present [(str ''message'', JString [] :: unit json)] body_keys = Some (JString [])
   \<and> normalize_message rt0 (str ''{\"message\": \"\"}'')
       = \<lparr>text = str ''{\"message\": \"\"}'', raw = JObject [(str ''message'', JString [])]\<rparr>"
proof -
  let ?a = "str ''{\"user\": \"\", \"sender\": \"bob\", \"message\": \"\", \"content\": \"hi\"}''"
  let ?d = "[(str ''user'', JString []), (str ''sender'', JString (str ''bob'')),
             (str ''message'', JString []), (str ''content'', JString (str ''hi''))]
            :: (pystr \<times> unit json) list"
  have la: "json_loads rt0 ?a = Some (JObject ?d)" by (simp add: json_eval)
  have lb: "json_loads rt0 (str ''{\"message\": \"\"}'') = Some (JObject [(str ''message'', JString [])])"
    by (simp add: json_eval)
  have fs: "first_present ?d speaker_keys = Some (JString [])"
    and fb: "first_present ?d body_keys = Some (JString [])"
    and fm: "first_present [(str ''message'', JString [] :: unit json)] body_keys = Some (JString [])"
    by (simp_all add: speaker_keys_def body_keys_def str_def)
  have na: "normalize_message rt0 ?a = \<lparr>text = str ''bob: hi'', raw = JObject ?d\<rparr>"
    unfolding normalize_message_def la by (simp add: normalize_eval str_def)
  have nb: "normalize_message rt0 (str ''{\"message\": \"\"}'')
      = \<lparr>text = str ''{\"message\": \"\"}'', raw = JObject [(str ''message'', JString [])]\<rparr>"
    unfolding normalize_message_def lb by (simp add: normalize_eval str_def)
  from la lb fs fb fm na nb show ?thesis by blast
qed

text \<open>
  C5. In the receive loop of the WebSocket driver, every ping frame that is received is
  answered by exactly one pong frame with the same payload and yields no message, and a close
  frame ends the sequence of messages without an error. Stated for a caller that consumes the
  whole stream and a peer that accepts every send: when the peer delivers the frames \<open>pre\<close>,
  none of them a close frame, and then a close frame, in chunks of any sizes, the loop yields
  the normalized payloads of the text frames of \<open>pre\<close> in order, ends as exhausted, has sent
  exactly the pong frames for the payloads of the ping frames of \<open>pre\<close> in order (opcode 10,
  masked with the next four random bytes each), and has closed the socket once.
\<close>

theorem ping_pong_and_close:
  assumes "list_all open_frame pre" and "length cp < 2 ^ 64"
    and "rx_bytes (rx s) = wire (pre @ [(8, cp)]) @ rest" and "tx_faults s = []"
  shows "\<exists>s'. ws_loop rt None s =
             (map (\<lambda>f. normalize_message rt (decode_replace (snd f))) (filter is_text pre),
              Exhausted, s')
          \<and> tx s' = tx s @ pong_frames (entropy s) (entropy_used s) (map snd (filter is_ping pre))
          \<and> close_calls s' = Suc (close_calls s)"
  using assms
proof (induction pre arbitrary: s)
  case Nil
  then have "rx_bytes (rx s) = server_frame (8, cp) @ rest" by (simp add: wire_def)
  with Nil.prems(2) obtain r where "recv_frame s = (Inr (8, cp), s\<lparr>rx := r\<rparr>)"
    using recv_server_frame [of "(8, cp)" s rest] by auto
  then show ?case by (simp add: ws_loop.simps [of rt None s] sock_close_def)
next
  case (Cons f pre)
  obtain opcode payload where f: "f = (opcode, payload)" by (cases f)
  from Cons.prems(1) have "open_frame f" and pre: "list_all open_frame pre" by simp_all
  with f have op: "opcode < 16" "opcode \<noteq> 8" and len: "length payload < 2 ^ 64"
    by (simp_all add: open_frame_def)
  from Cons.prems(3) have "rx_bytes (rx s) = server_frame f @ wire (pre @ [(8, cp)]) @ rest"
    by (simp add: wire_def)
  with op len f obtain r where rf: "recv_frame s = (Inr (opcode, payload), s\<lparr>rx := r\<rparr>)"
    and r: "rx_bytes r = wire (pre @ [(8, cp)]) @ rest"
    using recv_server_frame [of f s "wire (pre @ [(8, cp)]) @ rest"] by auto
  let ?s1 = "s\<lparr>rx := r\<rparr>"
  show ?case
  proof (cases "opcode = 9")
    case True
    let ?pong = "masked_frame 10 payload (map (entropy s) [entropy_used s ..< entropy_used s + 4])"
    let ?s2 = "?s1\<lparr>entropy_used := entropy_used s + 4, tx := tx s @ [?pong]\<rparr>"
    from len Cons.prems(4) have sp: "send_websocket_frame 10 payload True ?s1 = (Inr (), ?s2)"
      using send_pong [of payload ?s1] by simp
    from r Cons.prems(4) have "rx_bytes (rx ?s2) = wire (pre @ [(8, cp)]) @ rest"
      and "tx_faults ?s2 = []" by simp_all
    with Cons.IH [OF pre Cons.prems(2), of ?s2] obtain s' where
      "ws_loop rt None ?s2 =
         (map (\<lambda>f. normalize_message rt (decode_replace (snd f))) (filter is_text pre),
          Exhausted, s')"
      and "tx s' = tx ?s2 @ pong_frames (entropy ?s2) (entropy_used ?s2)
                              (map snd (filter is_ping pre))"
      and "close_calls s' = Suc (close_calls ?s2)"
      by blast
    moreover from True f have "is_ping f" and "\<not> is_text f"
      by (simp_all add: is_text_def is_ping_def)
    ultimately show ?thesis using True f rf sp
      by (simp add: ws_loop.simps [of rt None s])
  next
    case False
    from r Cons.prems(4) have "rx_bytes (rx ?s1) = wire (pre @ [(8, cp)]) @ rest"
      and "tx_faults ?s1 = []" by simp_all
    with Cons.IH [OF pre Cons.prems(2), of ?s1] obtain s' where
      "ws_loop rt None ?s1 =
         (map (\<lambda>f. normalize_message rt (decode_replace (snd f))) (filter is_text pre),
          Exhausted, s')"
      and "tx s' = tx ?s1 @ pong_frames (entropy ?s1) (entropy_used ?s1)
                              (map snd (filter is_ping pre))"
      and "close_calls s' = Suc (close_calls ?s1)"
      by blast
    moreover from False f have "\<not> is_ping f" and "is_text f \<longleftrightarrow> opcode = 1"
      by (simp_all add: is_text_def is_ping_def)
    ultimately show ?thesis using False op f rf
      by (simp add: ws_loop.simps [of rt None s] at_yield_def)
  qed
qed

theorem ping_pong_and_close_witness:
  "list_all open_frame [(1, [104, 105]), (9, [1, 2, 3]), (2, [0])]
   \<and> rx_bytes (rx (scripted_sock [[129, 2, 104], [105, 137, 3, 1, 2, 3, 130, 1, 0, 136, 0, 77]]))
       = wire ([(1, [104, 105]), (9, [1, 2, 3]), (2, [0])] @ [(8, [])]) @ [77]
   \<and> (\<exists>s'. ws_loop rt0 None
               (scripted_sock [[129, 2, 104], [105, 137, 3, 1, 2, 3, 130, 1, 0, 136, 0, 77]])
             = ([\<lparr>text = str ''hi'', raw = JString (str ''hi'')\<rparr>], Exhausted, s')
          \<and> tx s' = [[138, 131, 0, 1, 2, 3, 1, 3, 1]]
          \<and> close_calls s' = 1)"
proof -
  let ?pre = "[(1, [104, 105]), (9, [1, 2, 3]), (2, [0])] :: (nat \<times> bytes) list"
  let ?s = "scripted_sock [[129, 2, 104], [105, 137, 3, 1, 2, 3, 130, 1, 0, 136, 0, 77]]"
  have pre: "list_all open_frame ?pre" by (simp add: open_frame_def)
  have cp: "length ([] :: bytes) < 2 ^ 64" by simp
  have l2: "length [104, 105 :: byte] = 2" and l3: "length [1, 2, 3 :: byte] = 3"
    and l1: "length [0 :: byte] = 1" by simp_all
  have w: "wire (?pre @ [(8, [])]) = [129, 2, 104, 105, 137, 3, 1, 2, 3, 130, 1, 0, 136, 0]"
    unfolding wire_def server_frame_def websocket_frame_def
    by (simp add: l1 l2 l3 frame_header_def)
  have rx: "rx_bytes (rx ?s) = wire (?pre @ [(8, [])]) @ [77]"
    unfolding w by (simp add: scripted_sock_def)
  have tf: "tx_faults ?s = []" and tx0: "tx ?s = []" and cc: "close_calls ?s = 0"
    and eu: "entropy_used ?s = 0" and en: "entropy ?s = (\<lambda>i. of_nat i)"
    by (simp_all add: scripted_sock_def)
  have "json_loads rt0 (str ''hi'') = None" by (simp add: json_eval)
  then have n: "normalize_message rt0 (decode_replace [104, 105])
      = \<lparr>text = str ''hi'', raw = JString (str ''hi'')\<rparr>"
    by (simp add: decode_replace_def normalize_message_unparsed str_def)
  have "[0 ..< 4] = [0, 1, 2, 3 :: nat]" by (simp add: upt_conv_Cons numeral_eq_Suc)
  then have key: "map (\<lambda>i. of_nat i :: byte) [0 ..< 4] = [0, 1, 2, 3]" by simp
  have x: "xor_mask [0, 1, 2, 3] [1, 2, 3] = [1, 3, 1]"
    by (simp add: xor_mask_def enumerate_eq_zip)
  have pong: "masked_frame 10 [1, 2, 3] [0, 1, 2, 3] = [138, 131, 0, 1, 2, 3, 1, 3, 1]"
    unfolding masked_frame_def websocket_frame_def l3 by (simp add: frame_header_def x)
  have msgs: "map (\<lambda>f. normalize_message rt0 (decode_replace (snd f))) (filter is_text ?pre)
      = [\<lparr>text = str ''hi'', raw = JString (str ''hi'')\<rparr>]"
    by (simp add: is_text_def n)
  have pongs: "pong_frames (entropy ?s) (entropy_used ?s) (map snd (filter is_ping ?pre))
      = [[138, 131, 0, 1, 2, 3, 1, 3, 1]]"
    unfolding en eu by (simp add: is_ping_def key pong)
  from ping_pong_and_close [OF pre cp rx tf, of rt0]
  have "\<exists>s'. ws_loop rt0 None ?s = ([\<lparr>text = str ''hi'', raw = JString (str ''hi'')\<rparr>], Exhausted, s')
          \<and> tx s' = [[138, 131, 0, 1, 2, 3, 1, 3, 1]] \<and> close_calls s' = 1"
    unfolding msgs pongs tx0 cc by simp
  with pre rx show ?thesis by blast
qed

text \<open>
  C6. The HTTP driver, given the response lines \<open>data: {"text":"hello"}\<close>, the empty line
  and \<open>data: {"text":"world"}\<close>, yields exactly two messages, with texts \<open>hello\<close> and
  \<open>world\<close> in that order. In general it skips the lines that are blank once stripped, and
  hands every other line to the normalizer after removing a leading \<open>data:\<close> and the
  white space that follows it.
\<close>

theorem http_driver_lines:
  "fst (http_lines rt None False
          [ascii_bytes ''data: {\"text\":\"hello\"}'', ascii_bytes '''',
           ascii_bytes ''data: {\"text\":\"world\"}''])
     = [\<lparr>text = str ''hello'', raw = JObject [(str ''text'', JString (str ''hello''))]\<rparr>,
        \<lparr>text = str ''world'', raw = JObject [(str ''text'', JString (str ''world''))]\<rparr>]
   \<and> (\<forall>fault raw_lines.
        http_lines rt None fault raw_lines =
          (map (\<lambda>line. normalize_message rt (data_payload line))
               (filter (\<lambda>line. line \<noteq> [])
                  (map (\<lambda>raw_line. py_strip (decode_replace raw_line)) raw_lines)),
           if fault then Raised OSError else Exhausted))"
proof (intro conjI allI)
  have d1: "decode_replace (ascii_bytes ''data: {\"text\":\"hello\"}'') = str ''data: {\"text\":\"hello\"}''"
    by (simp add: decode_replace_def ascii_bytes_def str_def)
  have d2: "decode_replace (ascii_bytes '''') = str ''''"
    by (simp add: decode_replace_def ascii_bytes_def str_def)
  have d3: "decode_replace (ascii_bytes ''data: {\"text\":\"world\"}'') = str ''data: {\"text\":\"world\"}''"
    by (simp add: decode_replace_def ascii_bytes_def str_def)
  have s1: "py_strip (str ''data: {\"text\":\"hello\"}'') = str ''data: {\"text\":\"hello\"}''"
    and s2: "py_strip (str '''') = []"
    and s3: "py_strip (str ''data: {\"text\":\"world\"}'') = str ''data: {\"text\":\"world\"}''"
    by (simp_all add: py_strip_def str_def py_isspace_def)
  have p1: "data_payload (str ''data: {\"text\":\"hello\"}'') = str ''{\"text\":\"hello\"}''"
    and p3: "data_payload (str ''data: {\"text\":\"world\"}'') = str ''{\"text\":\"world\"}''"
    by (simp_all add: data_payload_def startswith_def str_def py_isspace_def)
  have n1: "normalize_message rt (str ''{\"text\":\"hello\"}'')
      = \<lparr>text = str ''hello'', raw = JObject [(str ''text'', JString (str ''hello''))]\<rparr>"
    by (rule normalize_text_only [OF json_loads_hello]) (simp add: str_def)
  have n3: "normalize_message rt (str ''{\"text\":\"world\"}'')
      = \<lparr>text = str ''world'', raw = JObject [(str ''text'', JString (str ''world''))]\<rparr>"
    by (rule normalize_text_only [OF json_loads_world]) (simp add: str_def)
  have ne: "str ''data: {\"text\":\"hello\"}'' \<noteq> []" "str ''data: {\"text\":\"world\"}'' \<noteq> []"
    by (simp_all add: str_def)
  show "fst (http_lines rt None False
          [ascii_bytes ''data: {\"text\":\"hello\"}'', ascii_bytes '''',
           ascii_bytes ''data: {\"text\":\"world\"}''])
     = [\<lparr>text = str ''hello'', raw = JObject [(str ''text'', JString (str ''hello''))]\<rparr>,
        \<lparr>text = str ''world'', raw = JObject [(str ''text'', JString (str ''world''))]\<rparr>]"
    unfolding http_lines_all by (simp add: d1 d2 d3 s1 s2 s3 p1 p3 n1 n3 ne)
next
  fix fault raw_lines
  show "http_lines rt None fault raw_lines =
          (map (\<lambda>line. normalize_message rt (data_payload line))
               (filter (\<lambda>line. line \<noteq> [])
                  (map (\<lambda>raw_line. py_strip (decode_replace raw_line)) raw_lines)),
           if fault then Raised OSError else Exhausted)"
    by (rule http_lines_all)
qed

theorem http_driver_lines_witness:
  "http_lines rt0 None True [ascii_bytes ''  '', ascii_bytes ''data:  plain text '']
     = ([\<lparr>text = str ''plain text'', raw = JString (str ''plain text'')\<rparr>], Raised OSError)"
proof -
  have d: "decode_replace (ascii_bytes ''  '') = str ''  ''"
    "decode_replace (ascii_bytes ''data:  plain text '') = str ''data:  plain text ''"
    by (simp_all add: decode_replace_def ascii_bytes_def str_def)
  have s: "py_strip (str ''  '') = []"
    "py_strip (str ''data:  plain text '') = str ''data:  plain text''"
    by (simp_all add: py_strip_def str_def py_isspace_def)
  have p: "data_payload (str ''data:  plain text'') = str ''plain text''"
    by (simp add: data_payload_def startswith_def str_def py_isspace_def)
  have "json_loads rt0 (str ''plain text'') = None" by (simp add: json_eval)
  then have n: "normalize_message rt0 (str ''plain text'')
      = \<lparr>text = str ''plain text'', raw = JString (str ''plain text'')\<rparr>"
    by (rule normalize_message_unparsed)
  have ne: "str ''data:  plain text'' \<noteq> []" by (simp add: str_def)
  from http_driver_lines [of rt0]
  have "http_lines rt0 None True [ascii_bytes ''  '', ascii_bytes ''data:  plain text '']
      = (map (\<lambda>line. normalize_message rt0 (data_payload line))
           (filter (\<lambda>line. line \<noteq> [])
              (map (\<lambda>raw_line. py_strip (decode_replace raw_line))
                 [ascii_bytes ''  '', ascii_bytes ''data:  plain text ''])),
         if True then Raised OSError else Exhausted)"
    by blast
  then show ?thesis by (simp add: d s p n ne)
qed

text \<open>
  C7, as amended. For every input on which \<open>json.loads\<close> raises \<open>JSONDecodeError\<close>, such
  as \<open>not json\<close>, the normalizer returns a message whose \<open>text\<close> and \<open>raw\<close> are both the
  input, and does not raise. This holds whatever the limits of the interpreter are.
\<close>

theorem normalize_decode_error_fallback:
  "(json_loads_limited lim rt s = Inl JSONDecodeError
      \<longrightarrow> normalize_message_limited lim rt s = Inr \<lparr>text = s, raw = JString s\<rparr>)
   \<and> json_loads_limited lim rt (str ''not json'') = Inl JSONDecodeError
   \<and> normalize_message_limited lim rt (str ''not json'')
       = Inr \<lparr>text = str ''not json'', raw = JString (str ''not json'')\<rparr>"
proof (intro conjI impI)
  show "normalize_message_limited lim rt s = Inr \<lparr>text = s, raw = JString s\<rparr>"
    if "json_loads_limited lim rt s = Inl JSONDecodeError"
    using that by (simp add: normalize_message_limited_def)
  show "json_loads_limited lim rt (str ''not json'') = Inl JSONDecodeError"
    by (rule json_loads_limited_not_json)
  then show "normalize_message_limited lim rt (str ''not json'')
      = Inr \<lparr>text = str ''not json'', raw = JString (str ''not json'')\<rparr>"
    by (simp add: normalize_message_limited_def)
qed

theorem normalize_decode_error_fallback_witness:
  "json_loads_limited default_limits rt0 (str ''{\"text\": '') = Inl JSONDecodeError
   \<and> normalize_message_limited default_limits rt0 (str ''{\"text\": '')
       = Inr \<lparr>text = str ''{\"text\": '', raw = JString (str ''{\"text\": '')\<rparr>"
proof -
  have "json_loads_limited default_limits rt0 (str ''{\"text\": '') = Inl JSONDecodeError"
    by (simp add: json_loads_limited_def default_limits_def read_value.simps read_members.simps
        scanstring.simps skip_ws_def is_ws_def str_def read_number_def scan_integer_def
        startswith_def)
  with normalize_decode_error_fallback [of default_limits rt0 "str ''{\"text\": ''"]
  show ?thesis by simp
qed

text \<open>
  C7 as the claim states it fails. An opening bracket followed by 4301 digits \<open>1\<close>, and
  100000 opening brackets, are both malformed JSON; on the first \<open>json.loads\<close> raises the
  \<open>ValueError\<close> of the digit limit, on the second \<open>RecursionError\<close>, and the normalizer,
  which catches neither, raises it in its turn and returns no message.
\<close>

theorem normalize_raises_on_malformed_counterexample:
  "json_loads rt0 (91 # replicate 4301 49) = None
   \<and> normalize_message_limited default_limits rt0 (91 # replicate 4301 49)
       = Inl IntMaxStrDigitsError
   \<and> normalize_message_limited default_limits rt0 (91 # replicate 4301 49)
       \<noteq> Inr \<lparr>text = 91 # replicate 4301 49, raw = JString (91 # replicate 4301 49)\<rparr>
   \<and> json_loads rt0 (replicate 100000 91) = None
   \<and> normalize_message_limited default_limits rt0 (replicate 100000 91) = Inl RecursionError
   \<and> normalize_message_limited default_limits rt0 (replicate 100000 91)
       \<noteq> Inr \<lparr>text = replicate 100000 91, raw = JString (replicate 100000 91)\<rparr>"
proof -
  have "(4301::nat) = Suc 4300" by simp
  then have ones: "replicate 4301 (49::nat) = 49 # replicate 4300 49"
    by (simp only: replicate_Suc)
  have a: "json_loads_limited default_limits rt0 (91 # 49 # replicate 4300 49)
      = Inl IntMaxStrDigitsError"
    by (rule json_loads_limited_long_int) (simp_all add: default_limits_def)
  have b: "json_loads_limited default_limits rt0 (replicate 100000 91) = Inl RecursionError"
    by (rule json_loads_limited_too_deep) (simp add: default_limits_def)
  have na: "normalize_message_limited default_limits rt0 (91 # 49 # replicate 4300 49)
      = Inl IntMaxStrDigitsError"
    using a by (simp add: normalize_message_limited_raises)
  have nb: "normalize_message_limited default_limits rt0 (replicate 100000 91) = Inl RecursionError"
    using b by (simp add: normalize_message_limited_raises)
  show ?thesis
    unfolding ones json_loads_long_int json_loads_open_brackets na nb by simp
qed

text \<open>
  C8. For every server URL whose scheme is none of \<open>http\<close>, \<open>https\<close>, \<open>ws\<close> and \<open>wss\<close>,
  the stream fails with a \<open>ValueError\<close> and has done nothing to the network: no socket was
  created, no address dialled and no HTTP request made.
\<close>

theorem unsupported_scheme_fails_before_io:
  assumes "scheme parsed \<notin> set [str ''http'', str ''https'', str ''ws'', str ''wss'']"
  shows "stream rt parsed question demand ev =
           \<lparr>yielded = [],
            outcome = Raised (ValueError (str ''Unsupported AG_UI_SERVER scheme: '' @ scheme parsed)),
            http_request = None, dialed = None, conn = None\<rparr>"
  using assms by (simp add: stream_def)

theorem unsupported_scheme_fails_before_io_witness:
  "scheme ftp_host \<notin> set [str ''http'', str ''https'', str ''ws'', str ''wss'']
   \<and> stream rt0 ftp_host (str ''hi'') None
         \<lparr>connect_fault = False, tls_fault = False, peer = scripted_sock [],
          urlopen_result = Inr \<lparr>resp_lines = [], resp_fault = False\<rparr>\<rparr>
       = \<lparr>yielded = [],
          outcome = Raised (ValueError (str ''Unsupported AG_UI_SERVER scheme: ftp'')),
          http_request = None, dialed = None, conn = None\<rparr>"
proof -
  have a: "scheme ftp_host \<notin> set [str ''http'', str ''https'', str ''ws'', str ''wss'']"
    by (simp add: ftp_host_def str_def)
  have b: "str ''Unsupported AG_UI_SERVER scheme: '' @ scheme ftp_host
      = str ''Unsupported AG_UI_SERVER scheme: ftp''"
    by (simp add: ftp_host_def str_def)
  from unsupported_scheme_fails_before_io [OF a, of rt0 "str ''hi''" None] a show ?thesis
    unfolding b by blast
qed

text \<open>
  C9, as amended. For every JSON object whose selected body value is a list or an object, the
  body part of the text is that value serialized as \<open>json.dumps\<close> does by default, with
  \<open>", "\<close> between items and \<open>": "\<close> after keys (so \<open>{"a": 1}\<close> for the example) and
  non-ASCII characters left as they are. The text is this serialization when no speaker is
  found, and the speaker, \<open>": "\<close> and this serialization otherwise.
\<close>

theorem structured_body_serialized:
  assumes "json_loads rt raw_text = Some (JObject d)"
    and "is_structured (selected_body rt d)"
  shows "text (normalize_message rt raw_text) =
           (case first_truthy rt d speaker_keys of
              Some speaker \<Rightarrow>
                py_str rt speaker @ str '': ''
                  @ json_dumps rt False default_separators (selected_body rt d)
            | None \<Rightarrow> json_dumps rt False default_separators (selected_body rt d))
         \<and> json_dumps rt False default_separators (JObject [(str ''a'', JInt 1)])
             = str ''{\"a\": 1}''"
proof
  from assms(2) have "message_body rt d
      = JString (json_dumps rt False default_separators (selected_body rt d))"
    by (cases "selected_body rt d") (simp_all add: message_body_selected is_structured_def)
  then have b: "py_str rt (message_body rt d)
      = json_dumps rt False default_separators (selected_body rt d)"
    by (simp add: py_str_def)
  show "text (normalize_message rt raw_text) =
           (case first_truthy rt d speaker_keys of
              Some speaker \<Rightarrow>
                py_str rt speaker @ str '': ''
                  @ json_dumps rt False default_separators (selected_body rt d)
            | None \<Rightarrow> json_dumps rt False default_separators (selected_body rt d))"
  proof (cases "first_truthy rt d speaker_keys")
    case None
    then have "\<not> truthy rt (message_prefix rt d)" by (simp add: truthy_message_prefix)
    with assms(1) None b show ?thesis by (simp add: normalize_message_def Let_def)
  next
    case (Some speaker)
    then have "message_prefix rt d = speaker" and "truthy rt speaker"
      by (simp_all add: message_prefix_first_truthy first_truthy_Some)
    with assms(1) Some b show ?thesis by (simp add: normalize_message_def Let_def)
  qed
  show "json_dumps rt False default_separators (JObject [(str ''a'', JInt 1)]) = str ''{\"a\": 1}''"
    by (rule dumps_a1)
qed

theorem structured_body_serialized_witness:
  "json_loads rt0 (str ''{\"name\": \"bot\", \"body\": [1, \"x\"]}'')
     = Some (JObject [(str ''name'', JString (str ''bot'')),
                      (str ''body'', JArray [JInt 1, JString (str ''x'')])])
   \<and> is_structured (selected_body rt0 [(str ''name'', JString (str ''bot'')),
                                         (str ''body'', JArray [JInt 1, JString (str ''x'')])])
   \<and> text (normalize_message rt0 (str ''{\"name\": \"bot\", \"body\": [1, \"x\"]}''))
       = str ''bot: [1, \"x\"]''"
proof -
  let ?d = "[(str ''name'', JString (str ''bot'')),
             (str ''body'', JArray [JInt 1, JString (str ''x'')])] :: (pystr \<times> unit json) list"
  have l: "json_loads rt0 (str ''{\"name\": \"bot\", \"body\": [1, \"x\"]}'') = Some (JObject ?d)"
    by (simp add: json_eval)
  have b: "selected_body rt0 ?d = JArray [JInt 1, JString (str ''x'')]"
    by (simp add: selected_body_def body_keys_def dict_get_def truthy_def str_def)
  then have st: "is_structured (selected_body rt0 ?d)" by (simp add: is_structured_def)
  have s: "first_truthy rt0 ?d speaker_keys = Some (JString (str ''bot''))"
    by (simp add: speaker_keys_def dict_get_def truthy_def str_def)
  have t: "py_str rt0 (JString (str ''bot'') :: unit json) @ str '': ''
        @ json_dumps rt0 False default_separators (JArray [JInt 1, JString (str ''x'')])
      = str ''bot: [1, \"x\"]''"
    by (simp add: py_str_def default_separators_def json_string_def json_escape_char_def
        int_str_def nat_digits.simps str_def)
  from structured_body_serialized [OF l st]
  have "text (normalize_message rt0 (str ''{\"name\": \"bot\", \"body\": [1, \"x\"]}''))
      = str ''bot: [1, \"x\"]''"
    unfolding s b using t by simp
  with l st show ?thesis by blast
qed

text \<open>
  C9 as the claim states it fails: for \<open>{"content": {"a": 1}}\<close> the text is \<open>{"a": 1}\<close>,
  which is not the compact encoding \<open>{"a":1}\<close>; and with a speaker, as in
  \<open>{"user": "bot", "content": {"a": 1}}\<close>, the text is \<open>bot: {"a": 1}\<close>, which is not the
  serialization of the body in any encoding.
\<close>

theorem structured_body_counterexample:
  "text (normalize_message rt0 (str ''{\"content\": {\"a\": 1}}'')) = str ''{\"a\": 1}''
   \<and> json_dumps rt0 False compact_separators (JObject [(str ''a'', JInt 1)]) = str ''{\"a\":1}''
   \<and> text (normalize_message rt0 (str ''{\"content\": {\"a\": 1}}''))
       \<noteq> json_dumps rt0 False compact_separators (JObject [(str ''a'', JInt 1)])
   \<and> text (normalize_message rt0 (str ''{\"user\": \"bot\", \"content\": {\"a\": 1}}''))
       = str ''bot: {\"a\": 1}''
   \<and> text (normalize_message rt0 (str ''{\"user\": \"bot\", \"content\": {\"a\": 1}}''))
       \<noteq> json_dumps rt0 False default_separators (JObject [(str ''a'', JInt 1)])"
proof -
  have l1: "json_loads rt0 (str ''{\"content\": {\"a\": 1}}'')
      = Some (JObject [(str ''content'', JObject [(str ''a'', JInt 1)])])"
    by (simp add: json_eval)
  have l2: "json_loads rt0 (str ''{\"user\": \"bot\", \"content\": {\"a\": 1}}'')
      = Some (JObject [(str ''user'', JString (str ''bot'')),
                       (str ''content'', JObject [(str ''a'', JInt 1)])])"
    by (simp add: json_eval)
  have n1: "text (normalize_message rt0 (str ''{\"content\": {\"a\": 1}}'')) = str ''{\"a\": 1}''"
    unfolding normalize_message_def l1 by (simp add: normalize_eval str_def)
  have n2: "text (normalize_message rt0 (str ''{\"user\": \"bot\", \"content\": {\"a\": 1}}''))
      = str ''bot: {\"a\": 1}''"
    unfolding normalize_message_def l2 by (simp add: normalize_eval str_def)
  have ne1: "str ''{\"a\": 1}'' \<noteq> str ''{\"a\":1}''" by (simp add: str_def)
  have ne2: "str ''bot: {\"a\": 1}'' \<noteq> str ''{\"a\": 1}''" by (simp add: str_def)
  show ?thesis
    unfolding n1 n2 dumps_a1 dumps_a1_compact using ne1 ne2 by simp
qed

text \<open>
  C10. A response line that is only \<open>data:\<close>, with white space around it or not, is not
  skipped: the blank-line test comes before the prefix is removed, so the empty string
  reaches the normalizer, which yields a message with \<open>text\<close> and \<open>raw\<close> both empty.
\<close>

theorem data_only_line_not_skipped:
  assumes "py_strip (decode_replace raw_line) = str ''data:''"
  shows "http_lines rt demand fault (raw_line # rest) =
           (case at_yield demand of
              None \<Rightarrow> ([\<lparr>text = [], raw = JString []\<rparr>], Closed)
            | Some demand' \<Rightarrow>
                (\<lparr>text = [], raw = JString []\<rparr> # fst (http_lines rt demand' fault rest),
                 snd (http_lines rt demand' fault rest)))"
proof -
  have ne: "str ''data:'' \<noteq> []" and sw: "startswith (str ''data:'') (str ''data:'')"
    and dr: "drop (length (str ''data:'')) (str ''data:'') = []"
    by (simp_all add: str_def startswith_def)
  have st: "py_strip [] = []" by (simp add: py_strip_def)
  have "normalize_message rt [] = \<lparr>text = [], raw = JString []\<rparr>"
    by (rule normalize_message_unparsed) (rule json_loads_empty)
  with assms ne sw dr st show ?thesis
    by (simp add: Let_def split: option.splits prod.splits)
qed

theorem data_only_line_not_skipped_witness:
  "py_strip (decode_replace [32, 100, 97, 116, 97, 58, 32, 13, 10]) = str ''data:''
   \<and> http_lines rt0 None False [[32, 100, 97, 116, 97, 58, 32, 13, 10]]
       = ([\<lparr>text = [], raw = JString []\<rparr>], Exhausted)"
proof -
  have a: "py_strip (decode_replace [32, 100, 97, 116, 97, 58, 32, 13, 10]) = str ''data:''"
    by (simp add: decode_replace_def py_strip_def py_isspace_def str_def)
  from data_only_line_not_skipped [OF a, of rt0 None False "[]"] a show ?thesis
    by (simp add: at_yield_def)
qed
end
